theory Spec2Isabelle
  imports Main "HOL-Library.Sublist"
begin

text \<open>
  The loop orchestrator of ralphio (\<^verbatim>\<open>ralphio.js\<close>): the task store reader
  \<^verbatim>\<open>hasUnfinishedTasks\<close>, the loop controller \<^verbatim>\<open>runUntilSuccess\<close>, the commit reconciler
  \<^verbatim>\<open>autoCommitChanges\<close> and the agent invocation \<^verbatim>\<open>runTask\<close>, as functions over explicit
  states of the file system, the repository and the agent's stream. The definitions
  come first, section by section; the theorems follow in the same order.
\<close>

section \<open>JavaScript strings\<close>

text \<open>
  A JavaScript string is a sequence of UTF-16 code units. A code unit is modelled as a
  natural number and a string as the list of its code units, so that \<open>length\<close> is the
  \<^verbatim>\<open>.length\<close> of the source. ASCII literals of the source are written \<open>js ''...''\<close>.
\<close>

type_synonym jschar = nat
type_synonym jsstring = "jschar list"

abbreviation js :: "string \<Rightarrow> jsstring" where
  "js s \<equiv> map of_char s"

text \<open>The line terminators of ECMAScript (LF, CR, LS, PS): what \<^verbatim>\<open>^\<close> and \<^verbatim>\<open>$\<close> look at
  under the \<^verbatim>\<open>m\<close> flag, and what \<^verbatim>\<open>.\<close> does not match.\<close>

definition isLineTerminator :: "jschar \<Rightarrow> bool" where
  "isLineTerminator c = (c = 10 \<or> c = 13 \<or> c = 8232 \<or> c = 8233)"

text \<open>The class \<^verbatim>\<open>\s\<close>, which is also what \<^verbatim>\<open>String.prototype.trim\<close> strips: the white
  space code points and the line terminators.\<close>

definition isWhiteSpace :: "jschar \<Rightarrow> bool" where
  "isWhiteSpace c =
     (c = 9 \<or> c = 10 \<or> c = 11 \<or> c = 12 \<or> c = 13 \<or> c = 32 \<or> c = 160 \<or> c = 5760 \<or>
      (8192 \<le> c \<and> c \<le> 8202) \<or> c = 8232 \<or> c = 8233 \<or> c = 8239 \<or> c = 8287 \<or>
      c = 12288 \<or> c = 65279)"

definition trim :: "jsstring \<Rightarrow> jsstring" where
  "trim s = rev (dropWhile isWhiteSpace (rev (dropWhile isWhiteSpace s)))"

text \<open>\<^verbatim>\<open>s.lastIndexOf(c)\<close>: the index of the last occurrence, or -1.\<close>

definition lastIndexOf :: "jsstring \<Rightarrow> jschar \<Rightarrow> int" where
  "lastIndexOf s c = int (length (dropWhile (\<lambda>x. x \<noteq> c) (rev s))) - 1"

text \<open>\<^verbatim>\<open>s.slice(-n)\<close>: the last \<open>n\<close> code units, the whole string when it is shorter.\<close>

definition slice_last :: "nat \<Rightarrow> jsstring \<Rightarrow> jsstring" where
  "slice_last n s = drop (length s - n) s"

text \<open>\<^verbatim>\<open>s.includes(t)\<close>: \<open>t\<close> occurs in \<open>s\<close> as a contiguous run.\<close>

definition includes_str :: "jsstring \<Rightarrow> jsstring \<Rightarrow> bool" where
  "includes_str s t = sublist t s"

text \<open>A thrown \<^verbatim>\<open>Error\<close>, with its message.\<close>

datatype js_error = Error (message: jsstring)

section \<open>Task store reader\<close>

text \<open>
  The regular expression \<^verbatim>\<open>/^[ \t]*- \[ \]/gm\<close> of \<^verbatim>\<open>hasUnfinishedTasks\<close>
  (ralphio.js, line 81). \<open>match_unchecked_here s\<close> matches \<^verbatim>\<open>[ \t]*- \[ \]\<close> at the
  start of \<open>s\<close>: a space or a tab can only belong to the indentation, since the
  literal starts with a hyphen.
\<close>

fun match_unchecked_here :: "jsstring \<Rightarrow> bool" where
  "match_unchecked_here [] = False"
| "match_unchecked_here (c # cs) =
     (if c = 32 \<or> c = 9 then match_unchecked_here cs
      else prefix (js ''- [ ]'') (c # cs))"

text \<open>
  The number of matches of the global, multi-line expression in a content: the flag
  says whether the position is at the start of a line (the start of the input, or
  right after a line terminator). A match holds no line terminator, so no match starts
  inside another one, and the matches are the line starts where the pattern matches.
\<close>

fun count_unchecked_from :: "bool \<Rightarrow> jsstring \<Rightarrow> nat" where
  "count_unchecked_from bol [] = 0"
| "count_unchecked_from bol (c # cs) =
     (if bol \<and> match_unchecked_here (c # cs) then 1 else 0)
       + count_unchecked_from (isLineTerminator c) cs"

text \<open>\<^verbatim>\<open>planningContent.match(/^[ \t]*- \[ \]/gm)\<close>: \<^verbatim>\<open>null\<close> when nothing matches,
  the array of the matches otherwise (here its length).\<close>

definition match_unchecked :: "jsstring \<Rightarrow> nat option" where
  "match_unchecked content =
     (let n = count_unchecked_from True content in if n = 0 then None else Some n)"

text \<open>
  What the function sees of the file system: \<^verbatim>\<open>fs.existsSync\<close>, which never throws, and
  \<^verbatim>\<open>fs.readFileSync(path, 'utf8')\<close>, which returns the content or throws. The two are
  independent, so a file that disappears between the test and the read is covered.
\<close>

record fs_view =
  existsSync :: "jsstring \<Rightarrow> bool"
  readFileSync :: "jsstring \<Rightarrow> js_error + jsstring"

text \<open>
  The body of the \<^verbatim>\<open>try\<close> block of \<^verbatim>\<open>hasUnfinishedTasks\<close> (lines 68 to 89): \<open>Inl\<close> is an
  exception leaving the block. \<^verbatim>\<open>logToFile\<close> catches its own errors (lines 47 to 51) and
  writes under \<^verbatim>\<open>.agent/logs\<close> only, so the log is left out.
\<close>

definition planningPath :: "fs_view \<Rightarrow> jsstring" where
  "planningPath fs =
     (if existsSync fs (js ''./.agent/planning.md'') then js ''./.agent/planning.md''
      else js ''./planning.md'')"

definition hasUnfinishedTasks_try :: "fs_view \<Rightarrow> js_error + bool" where
  "hasUnfinishedTasks_try fs =
     (if \<not> existsSync fs (js ''./.agent/planning.md'') \<and> \<not> existsSync fs (js ''./planning.md'')
      then Inr False
      else
        case readFileSync fs (planningPath fs) of
          Inl e \<Rightarrow> Inl e
        | Inr planningContent \<Rightarrow>
            (case match_unchecked planningContent of
               None \<Rightarrow> Inr False
             | Some n \<Rightarrow> if n > 0 then Inr True else Inr False))"

text \<open>The function with its \<^verbatim>\<open>catch\<close> (lines 90 to 93), which returns \<^verbatim>\<open>false\<close>.\<close>

definition hasUnfinishedTasks :: "fs_view \<Rightarrow> js_error + bool" where
  "hasUnfinishedTasks fs =
     (case hasUnfinishedTasks_try fs of
        Inl error \<Rightarrow> Inr False
      | Inr b \<Rightarrow> Inr b)"

text \<open>
  The lines of a content, split at the line terminators, and the lines that are
  unchecked entries in the words of the specification: some indentation of spaces and
  tabs, then the marker \<^verbatim>\<open>- [ ]\<close>.
\<close>

fun js_lines :: "jsstring \<Rightarrow> jsstring list" where
  "js_lines [] = [[]]"
| "js_lines (c # cs) =
     (if isLineTerminator c then [] # js_lines cs
      else case js_lines cs of
             [] \<Rightarrow> [[c]]
           | l # ls \<Rightarrow> (c # l) # ls)"

definition unchecked_line :: "jsstring \<Rightarrow> bool" where
  "unchecked_line l =
     (\<exists>indent rest. l = indent @ js ''- [ ]'' @ rest \<and> set indent \<subseteq> {32, 9})"

text \<open>
  Three file systems: one with the task store at \<^verbatim>\<open>./.agent/planning.md\<close> and nothing else,
  one with no task store at all, and one whose task store exists and cannot be read.
\<close>

definition store_fs :: "jsstring \<Rightarrow> fs_view" where
  "store_fs content =
     \<lparr>existsSync = (\<lambda>p. p = js ''./.agent/planning.md''),
      readFileSync = (\<lambda>p. if p = js ''./.agent/planning.md'' then Inr content
                          else Inl (Error (js ''ENOENT: no such file or directory'')))\<rparr>"

definition missing_fs :: fs_view where
  "missing_fs =
     \<lparr>existsSync = (\<lambda>p. False),
      readFileSync = (\<lambda>p. Inl (Error (js ''ENOENT: no such file or directory'')))\<rparr>"

definition unreadable_fs :: fs_view where
  "unreadable_fs =
     \<lparr>existsSync = (\<lambda>p. p = js ''./planning.md''),
      readFileSync = (\<lambda>p. Inl (Error (js ''EACCES: permission denied'')))\<rparr>"

section \<open>Loop controller\<close>

text \<open>
  \<^verbatim>\<open>runUntilSuccess\<close>. The script \<^verbatim>\<open>ralphio.js\<close> goes on, after the prompt template of
  \<^verbatim>\<open>runTask\<close>, in the file \<^verbatim>\<open>END OF agent/planning.md\<close> of the sources, called the second
  part of the script here; \<^verbatim>\<open>runUntilSuccess\<close> is its lines 98 to 181. The controller
  is modelled over any world \<open>'w\<close>: \<open>fsv w\<close> is what \<^verbatim>\<open>hasUnfinishedTasks\<close> sees of the
  file system in the world \<open>w\<close>, and \<open>run w\<close> is one \<^verbatim>\<open>await runTask()\<close>, which returns a
  result (\<open>Inr\<close>) or throws (\<open>Inl\<close>) and leaves a new world. The delays between the
  iterations and the console and log output are left out.

  \<^verbatim>\<open>process.exit(n)\<close> ends the run with \<open>Exit n\<close>; an exception that nothing catches
  would end it with \<open>Uncaught\<close>. The record of a run keeps, beside the way it ended and
  the last world, the history of the invocations: for each \<^verbatim>\<open>runTask\<close> call, in order,
  whether it returned, and the value of \<^verbatim>\<open>consecutiveFailures\<close> after the iteration. The
  history is not a variable of the source; it is there to state the properties.
\<close>

datatype ending = Exit int | Uncaught js_error

record 'w run =
  ended :: ending
  invocations :: "(bool \<times> nat) list"
  world :: 'w

abbreviation maxIterations :: nat where
  "maxIterations \<equiv> 50"

abbreviation maxConsecutiveFailures :: nat where
  "maxConsecutiveFailures \<equiv> 3"

text \<open>The \<^verbatim>\<open>while\<close> loop (lines 112 to 175) and what follows it (lines 177 to 180).\<close>

function while_loop ::
  "('w \<Rightarrow> fs_view) \<Rightarrow> ('w \<Rightarrow> (js_error + jsstring) \<times> 'w) \<Rightarrow>
   nat \<Rightarrow> nat \<Rightarrow> (bool \<times> nat) list \<Rightarrow> 'w \<Rightarrow> 'w run" where
  "while_loop fsv run iteration consecutiveFailures history w =
     (if iteration \<le> maxIterations then
        (case hasUnfinishedTasks (fsv w) of
           Inl e \<Rightarrow> \<lparr>ended = Uncaught e, invocations = history, world = w\<rparr>
         | Inr unfinished \<Rightarrow>
             if \<not> unfinished
             then \<lparr>ended = Exit 0, invocations = history, world = w\<rparr>
             else
               (case run w of
                  (Inr result, w') \<Rightarrow>
                    while_loop fsv run (iteration + 1) 0 (history @ [(True, 0)]) w'
                | (Inl error, w') \<Rightarrow>
                    if consecutiveFailures + 1 \<ge> maxConsecutiveFailures
                    then \<lparr>ended = Exit 1,
                          invocations = history @ [(False, consecutiveFailures + 1)],
                          world = w'\<rparr>
                    else
                      while_loop fsv run (iteration + 1) (consecutiveFailures + 1)
                        (history @ [(False, consecutiveFailures + 1)]) w'))
      else \<lparr>ended = Exit 2, invocations = history, world = w\<rparr>)"
  by pat_completeness auto
termination
  by (relation "measure (\<lambda>(fsv, run, iteration, consecutiveFailures, history, w).
        Suc maxIterations - iteration)") auto

declare while_loop.simps [simp del]

text \<open>The function: the initial check (lines 104 to 110), then the loop with
  \<^verbatim>\<open>iteration = 1\<close> and \<^verbatim>\<open>consecutiveFailures = 0\<close>.\<close>

definition runUntilSuccess ::
  "('w \<Rightarrow> fs_view) \<Rightarrow> ('w \<Rightarrow> (js_error + jsstring) \<times> 'w) \<Rightarrow> 'w \<Rightarrow> 'w run" where
  "runUntilSuccess fsv run w =
     (case hasUnfinishedTasks (fsv w) of
        Inl e \<Rightarrow> \<lparr>ended = Uncaught e, invocations = [], world = w\<rparr>
      | Inr unfinished \<Rightarrow>
          if \<not> unfinished
          then \<lparr>ended = Exit 0, invocations = [], world = w\<rparr>
          else while_loop fsv run 1 0 [] w)"

text \<open>
  Two worlds to run the controller in. In the first, the world is a script: the
  outcomes of the invocations still to come (\<open>True\<close>: the invocation returns), and the
  task store holds an unchecked entry as long as the script is not used up.
\<close>

definition script_fs :: "bool list \<Rightarrow> fs_view" where
  "script_fs script =
     store_fs (if script = [] then js ''- [x] task'' else js ''- [ ] task'')"

definition script_run :: "bool list \<Rightarrow> (js_error + jsstring) \<times> bool list" where
  "script_run script =
     (if script \<noteq> [] \<and> hd script then (Inr (js ''done''), tl script)
      else (Inl (Error (js ''Operation timed out after 600000ms'')), tl script))"

text \<open>
  In the second, the world is the content of \<^verbatim>\<open>./.agent/planning.md\<close>, every invocation
  returns, and what it does is to mark the first unchecked entry of the content
  complete: the first match of the expression has its marker \<^verbatim>\<open>- [ ]\<close> replaced by
  \<^verbatim>\<open>- [x]\<close>. This is the agent that C2 assumes, one that always succeeds; the agent
  itself is no part of the repository.
\<close>

fun check_off :: "jsstring \<Rightarrow> jsstring" where
  "check_off [] = []"
| "check_off (c # cs) =
     (if c = 32 \<or> c = 9 then c # check_off cs
      else js ''- [x]'' @ drop 5 (c # cs))"

fun mark_first_done :: "bool \<Rightarrow> jsstring \<Rightarrow> jsstring" where
  "mark_first_done bol [] = []"
| "mark_first_done bol (c # cs) =
     (if bol \<and> match_unchecked_here (c # cs) then check_off (c # cs)
      else c # mark_first_done (isLineTerminator c) cs)"

definition ideal_agent ::
  "(jsstring \<Rightarrow> jsstring) \<Rightarrow> jsstring \<Rightarrow> (js_error + jsstring) \<times> jsstring" where
  "ideal_agent summary content = (Inr (summary content), mark_first_done True content)"

text \<open>A task store of \<open>n\<close> lines, each an unchecked entry.\<close>

definition unchecked_entries :: "nat \<Rightarrow> jsstring" where
  "unchecked_entries n = concat (replicate n (js ''- [ ] task'' @ [10]))"

text \<open>
  What a history looks like when it continues from the counter value \<open>c\<close>: an
  invocation is attempted only while the counter is below the threshold, a returning
  invocation leaves the counter at 0 and a throwing one leaves it one higher.
  \<open>last_counter c h\<close> is the counter after the history \<open>h\<close>.
\<close>

fun counter_follows :: "nat \<Rightarrow> (bool \<times> nat) list \<Rightarrow> bool" where
  "counter_follows c [] = True"
| "counter_follows c (e # es) =
     (c < maxConsecutiveFailures \<and> snd e = (if fst e then 0 else Suc c) \<and>
      counter_follows (snd e) es)"

definition last_counter :: "nat \<Rightarrow> (bool \<times> nat) list \<Rightarrow> nat" where
  "last_counter c h = (if h = [] then c else snd (last h))"

section \<open>Commit reconciler\<close>

text \<open>
  \<^verbatim>\<open>autoCommitChanges\<close> (ralphio.js, lines 454 to 544). First the commit message (lines
  469 to 489). \<^verbatim>\<open>x || 'task'\<close> takes the default for \<^verbatim>\<open>null\<close> (here \<open>None\<close>) and for the
  empty string.
\<close>

definition or_default :: "jsstring option \<Rightarrow> jsstring \<Rightarrow> jsstring" where
  "or_default x d = (case x of None \<Rightarrow> d | Some s \<Rightarrow> if s = [] then d else s)"

text \<open>The class \<^verbatim>\<open>[a-zA-Z0-9 \-_]\<close>, whose complement the first \<^verbatim>\<open>replace\<close> deletes.\<close>

definition isSafeChar :: "jschar \<Rightarrow> bool" where
  "isSafeChar c =
     ((of_char CHR ''a'' \<le> c \<and> c \<le> of_char CHR ''z'') \<or>
      (of_char CHR ''A'' \<le> c \<and> c \<le> of_char CHR ''Z'') \<or>
      (of_char CHR ''0'' \<le> c \<and> c \<le> of_char CHR ''9'') \<or>
      c = of_char CHR '' '' \<or> c = of_char CHR ''-'' \<or> c = of_char CHR ''_'')"

text \<open>\<^verbatim>\<open>.replace(/\s+/g, ' ')\<close>: every maximal run of white space becomes one space.\<close>

function normalize_spaces :: "jsstring \<Rightarrow> jsstring" where
  "normalize_spaces [] = []"
| "normalize_spaces (c # cs) =
     (if isWhiteSpace c then 32 # normalize_spaces (dropWhile isWhiteSpace cs)
      else c # normalize_spaces cs)"
  by pat_completeness auto
termination
  by (relation "measure length") (auto simp: le_imp_less_Suc length_dropWhile_le)

text \<open>Lines 473 to 476: the task text with the unsafe characters deleted, the white space
  normalised and the ends trimmed.\<close>

definition clean_task :: "jsstring option \<Rightarrow> jsstring" where
  "clean_task taskDescription =
     trim (normalize_spaces (filter isSafeChar (or_default taskDescription (js ''task''))))"

text \<open>Lines 479 to 485: the truncation.\<close>

definition truncate_task :: "jsstring \<Rightarrow> jsstring" where
  "truncate_task task =
     (if length task > 50 then
        (let task' = take 50 task;
             lastSpace = lastIndexOf task' 32
         in if lastSpace > 30 then take (nat lastSpace) task' else task')
      else task)"

text \<open>Lines 473 to 486: the task segment of the message.\<close>

definition sanitize_task :: "jsstring option \<Rightarrow> jsstring" where
  "sanitize_task taskDescription =
     or_default (Some (trim (truncate_task (clean_task taskDescription)))) (js ''task'')"

text \<open>
  Line 469: \<^verbatim>\<open>new Date().toISOString().slice(11, 19).replace(/:/g, '')\<close>, from the ISO
  string \<open>now\<close> that the clock gives. Line 470: the last six code units of the session
  id, or \<^verbatim>\<open>nosess\<close>. Line 489: the message.
\<close>

definition timestamp_of :: "jsstring \<Rightarrow> jsstring" where
  "timestamp_of now = filter (\<lambda>c. c \<noteq> of_char CHR '':'') (take 8 (drop 11 now))"

definition session_of :: "jsstring option \<Rightarrow> jsstring" where
  "session_of sessionId =
     (case sessionId of
        None \<Rightarrow> js ''nosess''
      | Some sid \<Rightarrow> if sid = [] then js ''nosess'' else slice_last 6 sid)"

definition commit_message :: "jsstring \<Rightarrow> jsstring option \<Rightarrow> jsstring option \<Rightarrow> jsstring" where
  "commit_message now taskDescription sessionId =
     js ''RALPHIO: '' @ sanitize_task taskDescription @ js '' ['' @ session_of sessionId
       @ js ''-'' @ timestamp_of now @ js '']''"

text \<open>
  \<^verbatim>\<open>execSync(command, { encoding: 'utf8' })\<close> over any state \<open>'g\<close> of the working
  directory with its repository: a command returns its output or throws, and leaves a
  new state. \<^verbatim>\<open>logToFile(message, type)\<close> (lines 43 to 52) appends a line to the log file
  of the day under \<^verbatim>\<open>./.agent/logs\<close>, which lies in the same working directory, and
  catches its own errors: it never throws and leaves a new state. The result of
  \<^verbatim>\<open>autoCommitChanges\<close> is its boolean, together with the commands it ran, in order, and
  the state it left. Console output is left out.
\<close>

type_synonym 'g exec = "jsstring \<Rightarrow> 'g \<Rightarrow> (js_error + jsstring) \<times> 'g"

type_synonym 'g logger = "jsstring \<Rightarrow> jsstring \<Rightarrow> 'g \<Rightarrow> 'g"

record 'g reconciled =
  ok :: bool
  commands :: "jsstring list"
  repo :: 'g

definition commit_command :: "jsstring \<Rightarrow> jsstring" where
  "commit_command commitMsg = js ''git commit -m '' @ [34] @ commitMsg @ [34]"

text \<open>The log entry of line 496; a description that is \<^verbatim>\<open>null\<close> prints as \<^verbatim>\<open>null\<close>.\<close>

definition attempt_entry :: "jsstring \<Rightarrow> jsstring option \<Rightarrow> jsstring option \<Rightarrow> jsstring" where
  "attempt_entry now taskDescription sessionId =
     js ''Commit attempt - Original: '' @ [34]
       @ (case taskDescription of None \<Rightarrow> js ''null'' | Some d \<Rightarrow> d) @ [34]
       @ js '', Sanitized: '' @ [34] @ sanitize_task taskDescription @ [34]
       @ js '', Full: '' @ [34] @ commit_message now taskDescription sessionId @ [34]"

text \<open>The \<^verbatim>\<open>try\<close> block (lines 457 to 516): \<open>Inl\<close> is an exception leaving it.\<close>

definition autoCommitChanges_try ::
  "'g exec \<Rightarrow> 'g logger \<Rightarrow> jsstring \<Rightarrow> jsstring option \<Rightarrow> jsstring option \<Rightarrow> 'g \<Rightarrow>
   (js_error + bool) \<times> jsstring list \<times> 'g" where
  "autoCommitChanges_try execSync logToFile now taskDescription sessionId g =
     (case execSync (js ''git status --porcelain'') g of
        (Inl e, g1) \<Rightarrow> (Inl e, [js ''git status --porcelain''], g1)
      | (Inr status, g1) \<Rightarrow>
          if trim status = []
          then (Inr True, [js ''git status --porcelain''],
                logToFile (js ''No changes to commit - agent likely already committed'')
                  (js ''INFO'') g1)
          else
            let commitMsg = commit_message now taskDescription sessionId;
                g2 = logToFile (attempt_entry now taskDescription sessionId) (js ''DEBUG'') g1
            in
            (case execSync (js ''git add -A'') g2 of
               (Inl e, g3) \<Rightarrow> (Inl e, [js ''git status --porcelain'', js ''git add -A''], g3)
             | (Inr added, g3) \<Rightarrow>
                 (case execSync (js ''git diff --cached --stat'') g3 of
                    (Inl e, g4) \<Rightarrow>
                      (Inl e, [js ''git status --porcelain'', js ''git add -A'',
                               js ''git diff --cached --stat''], g4)
                  | (Inr stagedChanges, g4) \<Rightarrow>
                      if trim stagedChanges = []
                      then (Inr True, [js ''git status --porcelain'', js ''git add -A'',
                                       js ''git diff --cached --stat''],
                            logToFile
                              (js ''No staged changes - agent likely committed or changes were reverted'')
                              (js ''INFO'') g4)
                      else
                        (case execSync (commit_command commitMsg) g4 of
                           (Inl e, g5) \<Rightarrow>
                             (Inl e, [js ''git status --porcelain'', js ''git add -A'',
                                      js ''git diff --cached --stat'',
                                      commit_command commitMsg], g5)
                         | (Inr committed, g5) \<Rightarrow>
                             (Inr True, [js ''git status --porcelain'', js ''git add -A'',
                                         js ''git diff --cached --stat'',
                                         commit_command commitMsg],
                              logToFile (js ''Auto-committed: '' @ commitMsg) (js ''SUCCESS'') g5)))))"

text \<open>
  The function with its \<^verbatim>\<open>catch\<close> (lines 517 to 543). An error whose message includes
  \<^verbatim>\<open>nothing to commit\<close> gives \<^verbatim>\<open>true\<close>, after one log entry; any other gives \<^verbatim>\<open>false\<close>,
  after two. \<^verbatim>\<open>execSync\<close> is a constant of the \<^verbatim>\<open>try\<close> block (line 458) and is not in
  scope in the \<^verbatim>\<open>catch\<close>: the \<^verbatim>\<open>git status --short\<close> of line 536 throws a
  \<^verbatim>\<open>ReferenceError\<close> that the inner \<^verbatim>\<open>try\<close> swallows, so no command runs there. An error
  of the model carries its message only, so in the entry of line 532 its fields
  \<^verbatim>\<open>stderr\<close> and \<^verbatim>\<open>status\<close> print as \<^verbatim>\<open>undefined\<close>.
\<close>

definition autoCommitChanges ::
  "'g exec \<Rightarrow> 'g logger \<Rightarrow> jsstring \<Rightarrow> jsstring option \<Rightarrow> jsstring option \<Rightarrow> 'g \<Rightarrow>
   'g reconciled" where
  "autoCommitChanges execSync logToFile now taskDescription sessionId g =
     (case autoCommitChanges_try execSync logToFile now taskDescription sessionId g of
        (Inr b, cmds, g') \<Rightarrow> \<lparr>ok = b, commands = cmds, repo = g'\<rparr>
      | (Inl error, cmds, g') \<Rightarrow>
          if includes_str (message error) (js ''nothing to commit'')
          then \<lparr>ok = True, commands = cmds,
                repo = logToFile (js ''Nothing to commit'') (js ''INFO'') g'\<rparr>
          else
            \<lparr>ok = False, commands = cmds,
             repo = logToFile (js ''Error details - stderr: undefined, status: undefined'')
                      (js ''DEBUG'')
                      (logToFile (js ''Auto-commit failed: '' @ message error) (js ''ERROR'') g')\<rparr>)"

text \<open>
  Whether a truncation of the text \<open>s\<close> to \<open>r\<close> is at a word boundary: \<open>r\<close> is the
  whole of \<open>s\<close>, or a beginning of \<open>s\<close> that a space follows.
\<close>

definition at_word_boundary :: "jsstring \<Rightarrow> jsstring \<Rightarrow> bool" where
  "at_word_boundary s r = (r = s \<or> (prefix r s \<and> length r < length s \<and> s ! length r = 32))"

text \<open>
  Two command runners for a working tree that is a counter of the commands run: one
  whose commands all print nothing, and one whose status query reports a change that
  staging does not pick up. With them goes a logger that leaves the counter alone.
\<close>

definition quiet_exec :: "nat exec" where
  "quiet_exec command g = (Inr [], Suc g)"

definition phantom_exec :: "nat exec" where
  "phantom_exec command g =
     (Inr (if command = js ''git status --porcelain'' then js '' M vendor/lib'' @ [10] else []),
      Suc g)"

definition silent_log :: "nat logger" where
  "silent_log entry type g = g"

text \<open>
  A small working directory with its repository, to run the reconciler in: the paths
  that differ from the index, the paths that are staged, the commit commands that
  succeeded, and whether an ignore rule covers \<^verbatim>\<open>./.agent/logs\<close>. The status query prints
  a line for each staged and each changed path, \<^verbatim>\<open>git add -A\<close> stages the changed ones,
  the staged difference prints a line for each staged one, and a commit fails when
  nothing is staged. A log entry changes the log file of the day (here the second of
  January 2025), which the repository sees unless the logs are ignored.
\<close>

record work_tree =
  changed_paths :: "jsstring list"
  staged_paths :: "jsstring list"
  commit_log :: "jsstring list"
  logs_ignored :: bool

definition tree_exec :: "work_tree exec" where
  "tree_exec command t =
     (if command = js ''git status --porcelain''
      then (Inr (concat (map (\<lambda>p. js '' M '' @ p @ [10]) (staged_paths t @ changed_paths t))), t)
      else if command = js ''git add -A''
      then (Inr [], t\<lparr>changed_paths := [], staged_paths := staged_paths t @ changed_paths t\<rparr>)
      else if command = js ''git diff --cached --stat''
      then (Inr (concat (map (\<lambda>p. js '' '' @ p @ js '' | 1 +'' @ [10]) (staged_paths t))), t)
      else if prefix (js ''git commit -m '') command
      then (if staged_paths t = []
            then (Inl (Error (js ''Command failed: nothing to commit, working tree clean'')), t)
            else (Inr [], t\<lparr>staged_paths := [], commit_log := commit_log t @ [command]\<rparr>))
      else (Inl (Error (js ''Command failed'')), t))"

definition tree_log :: "work_tree logger" where
  "tree_log entry type t =
     (if logs_ignored t \<or> js ''.agent/logs/ralphio_2025-01-02.log'' \<in> set (changed_paths t)
      then t
      else t\<lparr>changed_paths :=
               changed_paths t @ [js ''.agent/logs/ralphio_2025-01-02.log'']\<rparr>)"

definition clean_tree :: "bool \<Rightarrow> work_tree" where
  "clean_tree ignored =
     \<lparr>changed_paths = [], staged_paths = [], commit_log = [], logs_ignored = ignored\<rparr>"

section \<open>Agent invocation adapter\<close>

text \<open>
  \<^verbatim>\<open>runTask\<close> (ralphio.js from line 546, and lines 1 to 96 of the second part of the
  script). The messages that \<^verbatim>\<open>query\<close> streams, as far as the loop over them tells them
  apart: the \<^verbatim>\<open>system\<close> message of subtype \<^verbatim>\<open>init\<close> with its \<^verbatim>\<open>session_id\<close>, an \<^verbatim>\<open>assistant\<close>
  message with its content blocks, a \<^verbatim>\<open>tool_result\<close>, the \<^verbatim>\<open>result\<close> message with its
  \<^verbatim>\<open>result\<close> field, and a message of any other type. A field that is absent is \<open>None\<close>.
  The stream ends by being exhausted or by throwing.
\<close>

datatype block = Text jsstring | ToolUse jsstring | OtherBlock

datatype sdk_message =
    SystemInit "jsstring option"
  | Assistant "block list"
  | ToolResult "jsstring option" bool
  | Result "jsstring option"
  | OtherMessage jsstring

datatype stream_end = Exhausted | Throws js_error

fun is_Result :: "sdk_message \<Rightarrow> bool" where
  "is_Result (Result r) = True"
| "is_Result m = False"

fun is_SystemInit :: "sdk_message \<Rightarrow> bool" where
  "is_SystemInit (SystemInit s) = True"
| "is_SystemInit m = False"

text \<open>
  The variables that the loop over the messages changes: \<^verbatim>\<open>sessionId\<close> (line 548,
  initially \<^verbatim>\<open>null\<close>) and \<^verbatim>\<open>result\<close> (initially the empty string), and what it has
  appended to \<^verbatim>\<open>.agent/memory.md\<close>. Console and log output are left out: the log file
  under \<^verbatim>\<open>.agent/logs\<close> is not the memory store.
\<close>

record query_state =
  sessionId :: "jsstring option"
  result :: "jsstring option"
  memory_appends :: "jsstring list"

definition initial_query_state :: query_state where
  "initial_query_state = \<lparr>sessionId = None, result = Some [], memory_appends = []\<rparr>"

text \<open>A value used as a condition: \<^verbatim>\<open>null\<close>, \<^verbatim>\<open>undefined\<close> and the empty string are falsy.\<close>

definition truthy :: "jsstring option \<Rightarrow> bool" where
  "truthy x = (case x of None \<Rightarrow> False | Some s \<Rightarrow> s \<noteq> [])"

text \<open>The line that line 65 appends to the memory store.\<close>

definition breadcrumb :: "jsstring \<Rightarrow> jsstring" where
  "breadcrumb sid = [10] @ js ''<!-- Last session: '' @ sid @ js '' -->'' @ [10]"

text \<open>
  The body of the \<^verbatim>\<open>for await\<close> loop (lines 23 to 70) for one message.
  \<^verbatim>\<open>fs.appendFileSync\<close> throws when the memory store cannot be written.
\<close>

fun on_message :: "bool \<Rightarrow> sdk_message \<Rightarrow> query_state \<Rightarrow> js_error + query_state" where
  "on_message writable (SystemInit session_id) q = Inr (q\<lparr>sessionId := session_id\<rparr>)"
| "on_message writable (Assistant content) q = Inr q"
| "on_message writable (ToolResult tool_name is_error) q = Inr q"
| "on_message writable (Result r) q =
     (if truthy (sessionId q) then
        (if writable
         then Inr (q\<lparr>result := r,
                     memory_appends := memory_appends q @ [breadcrumb (the (sessionId q))]\<rparr>)
         else Inl (Error (js ''EACCES: permission denied, open .agent/memory.md'')))
      else Inr (q\<lparr>result := r\<rparr>))"
| "on_message writable (OtherMessage type) q = Inr q"

text \<open>The error of \<^verbatim>\<open>withTimeout\<close> (ralphio.js, line 116), from the decimal text of
  \<^verbatim>\<open>timeoutMs\<close>.\<close>

definition timeout_error :: "jsstring \<Rightarrow> js_error" where
  "timeout_error timeoutMs = Error (js ''Operation timed out after '' @ timeoutMs @ js ''ms'')"

text \<open>
  \<^verbatim>\<open>await withTimeout(queryPromise, timeoutMs)\<close> (lines 13 to 75), in the time of the
  stream: \<open>deadline = Some k\<close> says that the timer fires when \<open>k\<close> more messages
  have been handled and the query has not settled, \<open>None\<close> that it does not fire before
  the query settles. The query returns \<^verbatim>\<open>result\<close> when the stream is exhausted, and
  throws what the stream or the handling of a message throws. The state returned is the
  one at the moment the \<^verbatim>\<open>await\<close> is over; the guard does not stop the query, which may
  go on after a timeout.
\<close>

fun await_query ::
  "bool \<Rightarrow> jsstring \<Rightarrow> nat option \<Rightarrow> sdk_message list \<Rightarrow> stream_end \<Rightarrow> query_state \<Rightarrow>
   (js_error + jsstring option) \<times> query_state" where
  "await_query writable timeoutMs (Some 0) ms e q = (Inl (timeout_error timeoutMs), q)"
| "await_query writable timeoutMs deadline [] Exhausted q = (Inr (result q), q)"
| "await_query writable timeoutMs deadline [] (Throws error) q = (Inl error, q)"
| "await_query writable timeoutMs deadline (m # ms) e q =
     (case on_message writable m q of
        Inl error \<Rightarrow> (Inl error, q)
      | Inr q' \<Rightarrow> await_query writable timeoutMs (map_option (\<lambda>k. k - 1) deadline) ms e q')"

text \<open>
  The first match of \<^verbatim>\<open>/^[ \t]*- \[ \] (.+)$/m\<close> (ralphio.js, line 557) and its group: the
  text after the marker and one space, to the end of the line, in the first line that
  has such a text. A line is what stands between line terminators, which \<^verbatim>\<open>.\<close> does not
  match.
\<close>

fun task_text :: "jsstring \<Rightarrow> jsstring option" where
  "task_text [] = None"
| "task_text (c # cs) =
     (if c = 32 \<or> c = 9 then task_text cs
      else if prefix (js ''- [ ] '') (c # cs) \<and> drop 6 (c # cs) \<noteq> []
           then Some (drop 6 (c # cs)) else None)"

definition first_task :: "jsstring \<Rightarrow> jsstring option" where
  "first_task planningContent =
     (case List.find (\<lambda>l. task_text l \<noteq> None) (js_lines planningContent) of
        None \<Rightarrow> None
      | Some l \<Rightarrow> task_text l)"

text \<open>
  What surrounds one invocation: the files, whether the memory store can be written, the
  stream of the agent and how it ends, the deadline, the command runner and the logger
  of the commit reconciler with the state of the working tree, and the clock.
\<close>

record 'g surroundings =
  files :: fs_view
  memory_writable :: bool
  agent_messages :: "sdk_message list"
  agent_end :: stream_end
  deadline :: "nat option"
  timeout_text :: jsstring
  runner :: "'g exec"
  journal :: "'g logger"
  tree :: 'g
  clock :: jsstring

text \<open>What an invocation gives: the value returned (\<open>Inr\<close>) or the error thrown (\<open>Inl\<close>),
  what was appended to the memory store by then, and the result of
  \<^verbatim>\<open>autoCommitChanges\<close> when it was called.\<close>

record 'g task_run =
  returned :: "js_error + jsstring option"
  appended :: "jsstring list"
  reconciliation :: "'g reconciled option"

text \<open>
  \<^verbatim>\<open>runTask\<close>: the three files are read (ralphio.js, lines 552 to 554), the query is
  awaited under the guard, then \<^verbatim>\<open>autoCommitChanges\<close> is called with the current task and
  the session id (lines 75 to 84 of the second part); its \<^verbatim>\<open>catch\<close> (lines 85 to 95)
  throws the error again.
\<close>

definition runTask :: "'g surroundings \<Rightarrow> 'g task_run" where
  "runTask s =
     (case readFileSync (files s) (js ''.agent/prompt.md'') of
        Inl error \<Rightarrow> \<lparr>returned = Inl error, appended = [], reconciliation = None\<rparr>
      | Inr promptContent \<Rightarrow>
     (case readFileSync (files s) (js ''.agent/memory.md'') of
        Inl error \<Rightarrow> \<lparr>returned = Inl error, appended = [], reconciliation = None\<rparr>
      | Inr memoryContent \<Rightarrow>
     (case readFileSync (files s) (js ''.agent/planning.md'') of
        Inl error \<Rightarrow> \<lparr>returned = Inl error, appended = [], reconciliation = None\<rparr>
      | Inr planningContent \<Rightarrow>
          let currentTask = (case first_task planningContent of
                               None \<Rightarrow> js ''task'' | Some t \<Rightarrow> t)
          in case await_query (memory_writable s) (timeout_text s) (deadline s)
                    (agent_messages s) (agent_end s) initial_query_state of
               (Inl error, q) \<Rightarrow>
                 \<lparr>returned = Inl error, appended = memory_appends q, reconciliation = None\<rparr>
             | (Inr r, q) \<Rightarrow>
                 \<lparr>returned = Inr r, appended = memory_appends q,
                  reconciliation =
                    Some (autoCommitChanges (runner s) (journal s) (clock s) (Some currentTask)
                            (sessionId q) (tree s))\<rparr>)))"

text \<open>Surroundings in which the three files can be read, the memory store can be
  written, no deadline passes, every command prints nothing and the log leaves the
  working tree alone.\<close>

definition calm :: "sdk_message list \<Rightarrow> stream_end \<Rightarrow> nat surroundings" where
  "calm ms e =
     \<lparr>files = \<lparr>existsSync = (\<lambda>p. True), readFileSync = (\<lambda>p. Inr (js ''- [ ] Add login''))\<rparr>,
      memory_writable = True, agent_messages = ms, agent_end = e, deadline = None,
      timeout_text = js ''600000'', runner = quiet_exec, journal = silent_log, tree = 0,
      clock = js ''2025-01-02T03:04:05.678Z''\<rparr>"

text \<open>The three files that \<^verbatim>\<open>runTask\<close> reads can all be read.\<close>

definition files_readable :: "fs_view \<Rightarrow> bool" where
  "files_readable fs =
     (\<not> isl (readFileSync fs (js ''.agent/prompt.md'')) \<and>
      \<not> isl (readFileSync fs (js ''.agent/memory.md'')) \<and>
      \<not> isl (readFileSync fs (js ''.agent/planning.md'')))"

section \<open>Timeout guard\<close>

text \<open>
  \<^verbatim>\<open>withTimeout\<close> (ralphio.js, lines 111 to 120), in the time of settlements. A promise is
  seen from the moment of the call: the number of milliseconds after which it settles
  and how, or \<open>None\<close> when it never settles. \<^verbatim>\<open>Promise.race\<close> of two promises settles
  as the one that settles first does (as the first of the two when both settle at the
  same time). The promise of \<^verbatim>\<open>setTimeout(callback, delay)\<close> rejects when the timer
  fires; Node sets a delay above 2147483647 or below 1 to 1. The operation is a value
  that the guard only reads: nothing in the function can stop it.
\<close>

datatype 'a settlement = Fulfilled 'a | Rejected js_error

type_synonym 'a promise = "(nat \<times> 'a settlement) option"

definition timer_delay :: "nat \<Rightarrow> nat" where
  "timer_delay delay = (if delay < 1 \<or> 2147483647 < delay then 1 else delay)"

definition promise_race :: "'a promise \<Rightarrow> 'a promise \<Rightarrow> 'a promise" where
  "promise_race p q =
     (case p of
        None \<Rightarrow> q
      | Some (t, x) \<Rightarrow>
          (case q of
             None \<Rightarrow> Some (t, x)
           | Some (u, y) \<Rightarrow> if t \<le> u then Some (t, x) else Some (u, y)))"

text \<open>The decimal text of a number, as the template of line 116 prints \<^verbatim>\<open>timeoutMs\<close>
  (a number below \<open>10\<^sup>2\<^sup>1\<close>).\<close>

function decimal :: "nat \<Rightarrow> jsstring" where
  "decimal n = (if n < 10 then [48 + n] else decimal (n div 10) @ [48 + n mod 10])"
  by pat_completeness auto
termination
  by (relation "measure id") auto

declare decimal.simps [simp del]

definition withTimeout :: "'a promise \<Rightarrow> nat \<Rightarrow> 'a promise" where
  "withTimeout promise timeoutMs =
     promise_race promise
       (Some (timer_delay timeoutMs, Rejected (timeout_error (decimal timeoutMs))))"

section \<open>Theorems: task store reader\<close>

lemma match_unchecked_here_iff: "match_unchecked_here l = unchecked_line l"
proof (induction l)
  case Nil
  show ?case by (simp add: unchecked_line_def)
next
  case (Cons c cs)
  show ?case
  proof (cases "c = 32 \<or> c = 9")
    case True
    have "unchecked_line (c # cs) = unchecked_line cs"
    proof
      assume "unchecked_line (c # cs)"
      then obtain indent rest where
        h: "c # cs = indent @ js ''- [ ]'' @ rest" "set indent \<subseteq> {32, 9}"
        unfolding unchecked_line_def by blast
      from h(1) True obtain ind' where "indent = c # ind'"
        by (cases indent) auto
      with h show "unchecked_line cs"
        unfolding unchecked_line_def by auto
    next
      assume "unchecked_line cs"
      then obtain indent rest where
        h: "cs = indent @ js ''- [ ]'' @ rest" "set indent \<subseteq> {32, 9}"
        unfolding unchecked_line_def by blast
      from h True have "c # cs = (c # indent) @ js ''- [ ]'' @ rest \<and> set (c # indent) \<subseteq> {32, 9}"
        by auto
      then show "unchecked_line (c # cs)"
        unfolding unchecked_line_def by blast
    qed
    with True Cons show ?thesis by simp
  next
    case False
    have "unchecked_line (c # cs) = prefix (js ''- [ ]'') (c # cs)"
    proof
      assume "unchecked_line (c # cs)"
      then obtain indent rest where
        h: "c # cs = indent @ js ''- [ ]'' @ rest" "set indent \<subseteq> {32, 9}"
        unfolding unchecked_line_def by blast
      from h False have "indent = []"
        by (cases indent) auto
      with h(1) have "c # cs = js ''- [ ]'' @ rest" by simp
      then show "prefix (js ''- [ ]'') (c # cs)"
        by (simp only: prefixI)
    next
      assume "prefix (js ''- [ ]'') (c # cs)"
      then obtain rest where "c # cs = js ''- [ ]'' @ rest"
        unfolding prefix_def by blast
      then have "c # cs = [] @ js ''- [ ]'' @ rest \<and> set ([] :: jsstring) \<subseteq> {32, 9}"
        by simp
      then show "unchecked_line (c # cs)"
        unfolding unchecked_line_def by blast
    qed
    with False show ?thesis by simp
  qed
qed

lemma js_lines_not_Nil: "js_lines s \<noteq> []"
  by (cases s) (auto split: list.split)

lemma js_lines_terminator:
  "isLineTerminator c \<Longrightarrow> js_lines (c # cs) = [] # js_lines cs"
  by simp

lemma js_lines_Cons:
  "\<not> isLineTerminator c \<Longrightarrow> js_lines (c # cs) = (c # hd (js_lines cs)) # tl (js_lines cs)"
  using js_lines_not_Nil [of cs] by (cases "js_lines cs") simp_all

lemma prefix_first_line:
  "\<forall>c\<in>set t. \<not> isLineTerminator c \<Longrightarrow> prefix t (hd (js_lines s)) = prefix t s"
proof (induction s arbitrary: t)
  case Nil
  show ?case by simp
next
  case (Cons c cs)
  show ?case
  proof (cases t)
    case Nil
    then show ?thesis by simp
  next
    case (Cons a t')
    with Cons.prems have a: "\<not> isLineTerminator a" and t': "\<forall>c\<in>set t'. \<not> isLineTerminator c"
      by auto
    show ?thesis
    proof (cases "isLineTerminator c")
      case True
      with a have "a \<noteq> c" by auto
      with True Cons show ?thesis by simp
    next
      case False
      with Cons Cons.IH [OF t'] show ?thesis
        by (simp add: js_lines_Cons del: js_lines.simps(2))
    qed
  qed
qed

lemma marker_no_terminator: "\<forall>c\<in>set (js ''- [ ]''). \<not> isLineTerminator c"
  by (simp add: isLineTerminator_def)

lemma match_unchecked_first_line:
  "match_unchecked_here (hd (js_lines s)) = match_unchecked_here s"
proof (induction s)
  case Nil
  show ?case by simp
next
  case (Cons c cs)
  show ?case
  proof (cases "c = 32 \<or> c = 9")
    case True
    then have "\<not> isLineTerminator c" by (auto simp: isLineTerminator_def)
    with True Cons show ?thesis
      by (simp add: js_lines_Cons del: js_lines.simps(2))
  next
    case False
    have "prefix (js ''- [ ]'') (hd (js_lines (c # cs))) = prefix (js ''- [ ]'') (c # cs)"
      by (rule prefix_first_line [OF marker_no_terminator])
    moreover have "match_unchecked_here (hd (js_lines (c # cs)))
        = prefix (js ''- [ ]'') (hd (js_lines (c # cs)))"
      using False
      by (cases "isLineTerminator c")
        (simp_all add: js_lines_Cons js_lines_terminator del: js_lines.simps(2))
    ultimately show ?thesis using False by simp
  qed
qed

lemma count_unchecked_from_pos:
  "(0 < count_unchecked_from bol s) =
     ((bol \<and> match_unchecked_here (hd (js_lines s)))
      \<or> (\<exists>l\<in>set (tl (js_lines s)). match_unchecked_here l))"
proof (induction s arbitrary: bol)
  case Nil
  show ?case by simp
next
  case (Cons c cs)
  have here: "match_unchecked_here (c # cs) = match_unchecked_here (hd (js_lines (c # cs)))"
    by (rule match_unchecked_first_line [symmetric])
  have split: "(\<exists>l\<in>set (js_lines cs). match_unchecked_here l) =
      (match_unchecked_here (hd (js_lines cs)) \<or> (\<exists>l\<in>set (tl (js_lines cs)). match_unchecked_here l))"
    using js_lines_not_Nil [of cs] by (cases "js_lines cs") auto
  have step: "(0 < count_unchecked_from bol (c # cs)) =
      ((bol \<and> match_unchecked_here (c # cs)) \<or> 0 < count_unchecked_from (isLineTerminator c) cs)"
    by (auto simp del: match_unchecked_here.simps)
  show ?case
  proof (cases "isLineTerminator c")
    case True
    then have lines: "js_lines (c # cs) = [] # js_lines cs" by simp
    have "\<not> match_unchecked_here (c # cs)"
      unfolding here lines by simp
    moreover have "(0 < count_unchecked_from True cs) = (\<exists>l\<in>set (js_lines cs). match_unchecked_here l)"
      unfolding Cons.IH split by simp
    ultimately show ?thesis
      unfolding step lines using True by simp
  next
    case False
    then have lines: "js_lines (c # cs) = (c # hd (js_lines cs)) # tl (js_lines cs)"
      by (rule js_lines_Cons)
    have "(0 < count_unchecked_from False cs) = (\<exists>l\<in>set (tl (js_lines cs)). match_unchecked_here l)"
      unfolding Cons.IH by simp
    then show ?thesis
      unfolding step here using False by (simp only: lines list.sel)
  qed
qed

lemma count_unchecked_pos_lines:
  "(0 < count_unchecked_from True s) = (\<exists>l\<in>set (js_lines s). unchecked_line l)"
proof -
  have "(\<exists>l\<in>set (js_lines s). match_unchecked_here l) =
      (match_unchecked_here (hd (js_lines s)) \<or> (\<exists>l\<in>set (tl (js_lines s)). match_unchecked_here l))"
    using js_lines_not_Nil [of s] by (cases "js_lines s") auto
  then show ?thesis
    by (simp add: count_unchecked_from_pos match_unchecked_here_iff)
qed

lemma hasUnfinishedTasks_try_readable:
  assumes "existsSync fs (js ''./.agent/planning.md'') \<or> existsSync fs (js ''./planning.md'')"
    and "readFileSync fs (planningPath fs) = Inr content"
  shows "hasUnfinishedTasks_try fs = Inr (0 < count_unchecked_from True content)"
  using assms by (auto simp: hasUnfinishedTasks_try_def match_unchecked_def Let_def)

lemma hasUnfinishedTasks_Inr: "\<exists>b. hasUnfinishedTasks fs = Inr b"
  by (cases "hasUnfinishedTasks_try fs") (auto simp: hasUnfinishedTasks_def)

lemma hasUnfinishedTasks_store_fs:
  "hasUnfinishedTasks (store_fs content) = Inr (0 < count_unchecked_from True content)"
  by (simp add: hasUnfinishedTasks_def hasUnfinishedTasks_try_def store_fs_def planningPath_def
      match_unchecked_def Let_def)

text \<open>
  C9. \<^verbatim>\<open>hasUnfinishedTasks\<close> never throws: it always returns a boolean. It returns
  \<^verbatim>\<open>false\<close> when neither planning file exists and when the read of the chosen file
  throws; when the read gives a content, it returns \<^verbatim>\<open>true\<close> exactly when some line of the
  content is an unchecked entry (the marker after any indentation of spaces and tabs).
\<close>

theorem hasUnfinishedTasks_never_throws:
  "(\<exists>b. hasUnfinishedTasks fs = Inr b) \<and>
   (\<not> existsSync fs (js ''./.agent/planning.md'') \<and> \<not> existsSync fs (js ''./planning.md'')
      \<longrightarrow> hasUnfinishedTasks fs = Inr False) \<and>
   (\<forall>e. readFileSync fs (planningPath fs) = Inl e \<longrightarrow> hasUnfinishedTasks fs = Inr False) \<and>
   (\<forall>content.
      (existsSync fs (js ''./.agent/planning.md'') \<or> existsSync fs (js ''./planning.md'')) \<and>
      readFileSync fs (planningPath fs) = Inr content
      \<longrightarrow> hasUnfinishedTasks fs = Inr (\<exists>l\<in>set (js_lines content). unchecked_line l))"
proof (intro conjI allI impI)
  show "\<exists>b. hasUnfinishedTasks fs = Inr b"
    by (rule hasUnfinishedTasks_Inr)
next
  assume "\<not> existsSync fs (js ''./.agent/planning.md'') \<and> \<not> existsSync fs (js ''./planning.md'')"
  then show "hasUnfinishedTasks fs = Inr False"
    by (simp add: hasUnfinishedTasks_def hasUnfinishedTasks_try_def)
next
  fix e
  assume "readFileSync fs (planningPath fs) = Inl e"
  then show "hasUnfinishedTasks fs = Inr False"
    by (simp add: hasUnfinishedTasks_def hasUnfinishedTasks_try_def)
next
  fix content
  assume "(existsSync fs (js ''./.agent/planning.md'') \<or> existsSync fs (js ''./planning.md'')) \<and>
      readFileSync fs (planningPath fs) = Inr content"
  then have "hasUnfinishedTasks_try fs = Inr (0 < count_unchecked_from True content)"
    by (simp add: hasUnfinishedTasks_try_readable)
  then show "hasUnfinishedTasks fs = Inr (\<exists>l\<in>set (js_lines content). unchecked_line l)"
    by (simp add: hasUnfinishedTasks_def count_unchecked_pos_lines)
qed

theorem hasUnfinishedTasks_never_throws_witness:
  "hasUnfinishedTasks missing_fs = Inr False \<and>
   hasUnfinishedTasks unreadable_fs = Inr False \<and>
   hasUnfinishedTasks (store_fs (js ''# Plan'' @ [10] @ js ''- [x] a'' @ [10] @ js ''   - [ ] b''))
     = Inr True \<and>
   hasUnfinishedTasks (store_fs (js ''- [x] a'' @ [10] @ js ''text - [ ] b'')) = Inr False"
proof -
  let ?c1 = "js ''# Plan'' @ [10] @ js ''- [x] a'' @ [10] @ js ''   - [ ] b''"
  let ?c2 = "js ''- [x] a'' @ [10] @ js ''text - [ ] b''"
  have a: "hasUnfinishedTasks missing_fs = Inr False"
    using hasUnfinishedTasks_never_throws [of missing_fs] by (simp add: missing_fs_def)
  have b: "hasUnfinishedTasks unreadable_fs = Inr False"
    using hasUnfinishedTasks_never_throws [of unreadable_fs]
    by (simp add: unreadable_fs_def planningPath_def)
  have "hasUnfinishedTasks (store_fs ?c1) = Inr (\<exists>l\<in>set (js_lines ?c1). unchecked_line l)"
    using hasUnfinishedTasks_never_throws [of "store_fs ?c1"]
    by (simp add: store_fs_def planningPath_def)
  moreover have "\<exists>l\<in>set (js_lines ?c1). unchecked_line l"
    by (simp add: match_unchecked_here_iff [symmetric] isLineTerminator_def)
  ultimately have c: "hasUnfinishedTasks (store_fs ?c1) = Inr True" by simp
  have "hasUnfinishedTasks (store_fs ?c2) = Inr (\<exists>l\<in>set (js_lines ?c2). unchecked_line l)"
    using hasUnfinishedTasks_never_throws [of "store_fs ?c2"]
    by (simp add: store_fs_def planningPath_def)
  moreover have "\<not> (\<exists>l\<in>set (js_lines ?c2). unchecked_line l)"
    by (simp add: match_unchecked_here_iff [symmetric] isLineTerminator_def)
  ultimately have d: "hasUnfinishedTasks (store_fs ?c2) = Inr False" by simp
  from a b c d show ?thesis by simp
qed

section \<open>Theorems: loop controller\<close>

lemma counter_follows_append:
  "counter_follows c (h @ [e]) =
     (counter_follows c h \<and> last_counter c h < maxConsecutiveFailures \<and>
      snd e = (if fst e then 0 else Suc (last_counter c h)))"
  by (induction h arbitrary: c) (auto simp: last_counter_def)

lemma last_counter_snoc: "last_counter c (h @ [e]) = snd e"
  by (simp add: last_counter_def)

lemma while_loop_history:
  assumes "counter_follows 0 h" and "cf = last_counter 0 h" and "cf < maxConsecutiveFailures"
    and "Suc (length h) = iteration" and "iteration \<le> Suc maxIterations"
  shows "counter_follows 0 (invocations (while_loop fsv run iteration cf h w)) \<and>
    length (invocations (while_loop fsv run iteration cf h w)) \<le> maxIterations \<and>
    (ended (while_loop fsv run iteration cf h w) = Exit 0 \<or>
     ended (while_loop fsv run iteration cf h w) = Exit 1 \<or>
     ended (while_loop fsv run iteration cf h w) = Exit 2) \<and>
    (ended (while_loop fsv run iteration cf h w) = Exit 1) =
      (last_counter 0 (invocations (while_loop fsv run iteration cf h w)) = maxConsecutiveFailures) \<and>
    (ended (while_loop fsv run iteration cf h w) = Exit 2) =
      (length (invocations (while_loop fsv run iteration cf h w)) = maxIterations \<and>
       last_counter 0 (invocations (while_loop fsv run iteration cf h w)) < maxConsecutiveFailures) \<and>
    (ended (while_loop fsv run iteration cf h w) = Exit 0 \<longrightarrow>
       hasUnfinishedTasks (fsv (world (while_loop fsv run iteration cf h w))) = Inr False)"
  using assms
proof (induction fsv run iteration cf h w rule: while_loop.induct)
  case (1 fsv run iteration consecutiveFailures history w)
  obtain b where b: "hasUnfinishedTasks (fsv w) = Inr b"
    using hasUnfinishedTasks_Inr by blast
  obtain x w' where rw: "run w = (x, w')" by (cases "run w")
  show ?case
  proof (cases "iteration \<le> maxIterations")
    case False
    with "1.prems" show ?thesis
      by (simp add: while_loop.simps [of fsv run iteration])
  next
    case it: True
    show ?thesis
    proof (cases b)
      case False
      with it b "1.prems" show ?thesis
        by (simp add: while_loop.simps [of fsv run iteration])
    next
      case True
      then have nnb: "\<not> \<not> b" by simp
      show ?thesis
      proof (cases x)
        case (Inr result)
        have eq: "while_loop fsv run iteration consecutiveFailures history w =
            while_loop fsv run (iteration + 1) 0 (history @ [(True, 0)]) w'"
          using it b True rw Inr by (subst while_loop.simps) simp
        have "counter_follows 0 (history @ [(True, 0)])" "0 = last_counter 0 (history @ [(True, 0)])"
          "(0::nat) < maxConsecutiveFailures" "Suc (length (history @ [(True, 0)])) = iteration + 1"
          "iteration + 1 \<le> Suc maxIterations"
          using "1.prems" it by (simp_all add: counter_follows_append last_counter_snoc)
        from "1.IH"(2) [OF it b nnb rw [symmetric] Inr this] show ?thesis
          unfolding eq .
      next
        case (Inl error)
        show ?thesis
        proof (cases "maxConsecutiveFailures \<le> consecutiveFailures + 1")
          case stop: True
          have eq: "while_loop fsv run iteration consecutiveFailures history w =
              \<lparr>ended = Exit 1, invocations = history @ [(False, consecutiveFailures + 1)], world = w'\<rparr>"
            using it b True rw Inl stop by (subst while_loop.simps) simp
          from "1.prems" stop it show ?thesis
            unfolding eq by (auto simp: counter_follows_append last_counter_snoc)
        next
          case go: False
          have eq: "while_loop fsv run iteration consecutiveFailures history w =
              while_loop fsv run (iteration + 1) (consecutiveFailures + 1)
                (history @ [(False, consecutiveFailures + 1)]) w'"
            using it b True rw Inl go by (subst while_loop.simps) simp
          have "counter_follows 0 (history @ [(False, consecutiveFailures + 1)])"
            "consecutiveFailures + 1 = last_counter 0 (history @ [(False, consecutiveFailures + 1)])"
            "consecutiveFailures + 1 < maxConsecutiveFailures"
            "Suc (length (history @ [(False, consecutiveFailures + 1)])) = iteration + 1"
            "iteration + 1 \<le> Suc maxIterations"
            using "1.prems" go it by (simp_all add: counter_follows_append last_counter_snoc)
          from "1.IH"(1) [OF it b nnb rw [symmetric] Inl go this] show ?thesis
            unfolding eq .
        qed
      qed
    qed
  qed
qed

lemma counter_follows_tail: "counter_follows c (e # es) \<Longrightarrow> counter_follows (snd e) es"
  by (cases e) (auto split: if_splits)

lemma counter_follows_head:
  "counter_follows c (e # es) \<Longrightarrow> c < maxConsecutiveFailures \<and> snd e = (if fst e then 0 else Suc c)"
  by simp

lemma counter_follows_nth:
  "counter_follows c es \<Longrightarrow> k < length es \<Longrightarrow>
   snd (es ! k) = (if fst (es ! k) then 0 else Suc (if k = 0 then c else snd (es ! (k - 1))))"
proof (induction es arbitrary: c k)
  case Nil
  then show ?case by simp
next
  case (Cons e es)
  show ?case
  proof (cases k)
    case 0
    with Cons.prems show ?thesis by simp
  next
    case (Suc j)
    with Cons.prems have "counter_follows (snd e) es" "j < length es"
      by (simp_all add: counter_follows_tail del: counter_follows.simps)
    from Cons.IH [OF this] Suc show ?thesis
      by (cases j) simp_all
  qed
qed

lemma counter_follows_below:
  "counter_follows c es \<Longrightarrow> Suc k < length es \<Longrightarrow> snd (es ! k) < maxConsecutiveFailures"
proof (induction es arbitrary: c k)
  case Nil
  then show ?case by simp
next
  case (Cons e es)
  show ?case
  proof (cases k)
    case 0
    with Cons.prems show ?thesis by (cases es) simp_all
  next
    case (Suc j)
    with Cons.prems have "counter_follows (snd e) es" "Suc j < length es"
      by (simp_all add: counter_follows_tail del: counter_follows.simps)
    from Cons.IH [OF this] Suc show ?thesis by simp
  qed
qed

lemma counter_follows_le:
  "counter_follows c es \<Longrightarrow> k < length es \<Longrightarrow> snd (es ! k) \<le> maxConsecutiveFailures"
proof (induction es arbitrary: c k)
  case Nil
  then show ?case by simp
next
  case (Cons e es)
  show ?case
  proof (cases k)
    case 0
    with Cons.prems show ?thesis by (auto split: if_splits)
  next
    case (Suc j)
    with Cons.prems have "counter_follows (snd e) es" "j < length es"
      by (simp_all add: counter_follows_tail del: counter_follows.simps)
    from Cons.IH [OF this] Suc show ?thesis by simp
  qed
qed

lemma counter_follows_three_failures:
  "counter_follows c es \<Longrightarrow> map fst es = ys @ [False, False, False] @ zs \<Longrightarrow>
   zs = [] \<and> last_counter c es = maxConsecutiveFailures"
proof (induction ys arbitrary: c es)
  case Nil
  then obtain e1 e2 e3 rest where es: "es = e1 # e2 # e3 # rest"
    and f: "\<not> fst e1" "\<not> fst e2" "\<not> fst e3" and zs: "map fst rest = zs"
    by (auto simp: map_eq_Cons_conv)
  from Nil.prems(1) es have t1: "counter_follows (snd e1) (e2 # e3 # rest)"
    by (simp only: counter_follows_tail)
  then have t2: "counter_follows (snd e2) (e3 # rest)"
    by (rule counter_follows_tail)
  then have t3: "counter_follows (snd e3) rest"
    by (rule counter_follows_tail)
  from Nil.prems(1) es f counter_follows_head [OF t1] counter_follows_head [OF t2]
  have c: "c < 3" "snd e1 = Suc c" "snd e1 < 3" "snd e2 = Suc (snd e1)"
    "snd e2 < 3" "snd e3 = Suc (snd e2)"
    by simp_all
  then have "snd e3 = 3" by simp
  with t3 have "rest = []" by (cases rest) simp_all
  with zs es \<open>snd e3 = 3\<close> show ?case by (simp add: last_counter_def)
next
  case (Cons y ys)
  then obtain e es' where es: "es = e # es'" and m: "map fst es' = ys @ [False, False, False] @ zs"
    by (auto simp: map_eq_Cons_conv)
  with Cons.prems(1) have "counter_follows (snd e) es'"
    by (simp only: counter_follows_tail)
  from Cons.IH [OF this m] have "zs = []" "last_counter (snd e) es' = 3" by simp_all
  moreover from m have "es' \<noteq> []" by auto
  ultimately show ?case using es by (simp add: last_counter_def)
qed

lemma runUntilSuccess_history:
  "counter_follows 0 (invocations (runUntilSuccess fsv run w)) \<and>
    length (invocations (runUntilSuccess fsv run w)) \<le> maxIterations \<and>
    (ended (runUntilSuccess fsv run w) = Exit 0 \<or>
     ended (runUntilSuccess fsv run w) = Exit 1 \<or>
     ended (runUntilSuccess fsv run w) = Exit 2) \<and>
    (ended (runUntilSuccess fsv run w) = Exit 1) =
      (last_counter 0 (invocations (runUntilSuccess fsv run w)) = maxConsecutiveFailures) \<and>
    (ended (runUntilSuccess fsv run w) = Exit 2) =
      (length (invocations (runUntilSuccess fsv run w)) = maxIterations \<and>
       last_counter 0 (invocations (runUntilSuccess fsv run w)) < maxConsecutiveFailures) \<and>
    (ended (runUntilSuccess fsv run w) = Exit 0 \<longrightarrow>
       hasUnfinishedTasks (fsv (world (runUntilSuccess fsv run w))) = Inr False)"
proof -
  obtain b where b: "hasUnfinishedTasks (fsv w) = Inr b"
    using hasUnfinishedTasks_Inr by blast
  show ?thesis
  proof (cases b)
    case False
    with b show ?thesis by (simp add: runUntilSuccess_def last_counter_def)
  next
    case True
    with b have eq: "runUntilSuccess fsv run w = while_loop fsv run 1 0 [] w"
      by (simp add: runUntilSuccess_def)
    have "counter_follows 0 []" "0 = last_counter 0 []" "(0::nat) < maxConsecutiveFailures"
      "Suc (length ([] :: (bool \<times> nat) list)) = 1" "(1::nat) \<le> Suc maxIterations"
      by (simp_all add: last_counter_def)
    from while_loop_history [OF this] show ?thesis
      unfolding eq .
  qed
qed

lemma while_loop_grows:
  "prefix h (invocations (while_loop fsv run iteration cf h w))"
proof (induction fsv run iteration cf h w rule: while_loop.induct)
  case (1 fsv run iteration consecutiveFailures history w)
  obtain b where b: "hasUnfinishedTasks (fsv w) = Inr b"
    using hasUnfinishedTasks_Inr by blast
  obtain x w' where rw: "run w = (x, w')" by (cases "run w")
  show ?case
  proof (cases "iteration \<le> maxIterations \<and> b")
    case False
    with b show ?thesis
      by (auto simp: while_loop.simps [of fsv run iteration])
  next
    case True
    then have it: "iteration \<le> maxIterations" and nnb: "\<not> \<not> b" by simp_all
    show ?thesis
    proof (cases x)
      case (Inr res)
      have eq: "while_loop fsv run iteration consecutiveFailures history w =
          while_loop fsv run (iteration + 1) 0 (history @ [(True, 0)]) w'"
        using True b rw Inr by (subst while_loop.simps) simp
      from "1.IH"(2) [OF it b nnb rw [symmetric] Inr] show ?thesis
        unfolding eq by (rule append_prefixD)
    next
      case (Inl error)
      show ?thesis
      proof (cases "maxConsecutiveFailures \<le> consecutiveFailures + 1")
        case stop: True
        then show ?thesis
          using True b rw Inl by (subst while_loop.simps) simp
      next
        case go: False
        have eq: "while_loop fsv run iteration consecutiveFailures history w =
            while_loop fsv run (iteration + 1) (consecutiveFailures + 1)
              (history @ [(False, consecutiveFailures + 1)]) w'"
          using True b rw Inl go by (subst while_loop.simps) simp
        from "1.IH"(1) [OF it b nnb rw [symmetric] Inl go] show ?thesis
          unfolding eq by (rule append_prefixD)
      qed
    qed
  qed
qed

lemma prefix_snoc_nth: "prefix (h @ [e]) xs \<Longrightarrow> xs ! length h = e"
  by (auto simp: prefix_def)

lemma while_loop_outcomes:
  "k < length (invocations (while_loop fsv run iteration cf h w)) \<Longrightarrow> length h \<le> k \<Longrightarrow>
   fst (invocations (while_loop fsv run iteration cf h w) ! k) =
     (\<not> isl (fst (run (((\<lambda>w. snd (run w)) ^^ (k - length h)) w))))"
proof (induction fsv run iteration cf h w arbitrary: k rule: while_loop.induct)
  case (1 fsv run iteration consecutiveFailures history w)
  obtain b where b: "hasUnfinishedTasks (fsv w) = Inr b"
    using hasUnfinishedTasks_Inr by blast
  obtain x w' where rw: "run w = (x, w')" by (cases "run w")
  show ?case
  proof (cases "iteration \<le> maxIterations \<and> b")
    case False
    with b have "invocations (while_loop fsv run iteration consecutiveFailures history w) = history"
      by (cases "iteration \<le> maxIterations") (simp_all add: while_loop.simps [of fsv run iteration])
    with "1.prems" show ?thesis by simp
  next
    case True
    then have it: "iteration \<le> maxIterations" and nnb: "\<not> \<not> b" by simp_all
    have pow: "((\<lambda>w. snd (run w)) ^^ (k - length history)) w =
        ((\<lambda>w. snd (run w)) ^^ (k - length (history @ [e]))) w'"
      if "length history < k" for e :: "bool \<times> nat"
    proof -
      from that obtain j where j: "k - length history = Suc j" "k - length (history @ [e]) = j"
        by (cases "k - length history") simp_all
      show ?thesis unfolding j by (simp add: funpow_Suc_right rw del: funpow.simps)
    qed
    show ?thesis
    proof (cases x)
      case (Inr res)
      have eq: "while_loop fsv run iteration consecutiveFailures history w =
          while_loop fsv run (iteration + 1) 0 (history @ [(True, 0)]) w'"
        using True b rw Inr by (subst while_loop.simps) simp
      show ?thesis
      proof (cases "k = length history")
        case True
        from prefix_snoc_nth [OF while_loop_grows [of "history @ [(True, 0)]" fsv run "iteration + 1" 0 w']]
        show ?thesis unfolding eq True using rw Inr by simp
      next
        case False
        with "1.prems"(2) have lt: "length history < k" by simp
        then have "length (history @ [(True, 0)]) \<le> k" by simp
        from "1.IH"(2) [OF it b nnb rw [symmetric] Inr "1.prems"(1) [unfolded eq] this]
        show ?thesis unfolding eq pow [OF lt, of "(True, 0)"] .
      qed
    next
      case (Inl error)
      show ?thesis
      proof (cases "maxConsecutiveFailures \<le> consecutiveFailures + 1")
        case stop: True
        have eq: "while_loop fsv run iteration consecutiveFailures history w =
            \<lparr>ended = Exit 1, invocations = history @ [(False, consecutiveFailures + 1)], world = w'\<rparr>"
          using True b rw Inl stop by (subst while_loop.simps) simp
        from "1.prems" have "k = length history" unfolding eq by simp
        then show ?thesis unfolding eq using rw Inl by simp
      next
        case go: False
        have eq: "while_loop fsv run iteration consecutiveFailures history w =
            while_loop fsv run (iteration + 1) (consecutiveFailures + 1)
              (history @ [(False, consecutiveFailures + 1)]) w'"
          using True b rw Inl go by (subst while_loop.simps) simp
        show ?thesis
        proof (cases "k = length history")
          case True
          from prefix_snoc_nth [OF while_loop_grows [of "history @ [(False, consecutiveFailures + 1)]"
              fsv run "iteration + 1" "consecutiveFailures + 1" w']]
          show ?thesis unfolding eq True using rw Inl by simp
        next
          case False
          with "1.prems"(2) have lt: "length history < k" by simp
          then have "length (history @ [(False, consecutiveFailures + 1)]) \<le> k" by simp
          from "1.IH"(1) [OF it b nnb rw [symmetric] Inl go "1.prems"(1) [unfolded eq] this]
          show ?thesis unfolding eq pow [OF lt, of "(False, consecutiveFailures + 1)"] .
        qed
      qed
    qed
  qed
qed

lemma runUntilSuccess_outcomes:
  assumes "k < length (invocations (runUntilSuccess fsv run w))"
  shows "fst (invocations (runUntilSuccess fsv run w) ! k) =
     (\<not> isl (fst (run (((\<lambda>w. snd (run w)) ^^ k) w))))"
proof -
  obtain b where b: "hasUnfinishedTasks (fsv w) = Inr b"
    using hasUnfinishedTasks_Inr by blast
  show ?thesis
  proof (cases b)
    case False
    with b assms show ?thesis by (simp add: runUntilSuccess_def)
  next
    case True
    with b have eq: "runUntilSuccess fsv run w = while_loop fsv run 1 0 [] w"
      by (simp add: runUntilSuccess_def)
    from while_loop_outcomes [of k fsv run 1 0 "[]" w] assms show ?thesis
      unfolding eq by simp
  qed
qed

text \<open>
  C1. In every run of \<^verbatim>\<open>runUntilSuccess\<close>, whatever the invocations do: an iteration
  is recorded as failed exactly when its \<^verbatim>\<open>await runTask()\<close> throws (the invocation of
  iteration \<open>k + 1\<close> runs in the world that \<open>k\<close> invocations have left); the counter of
  consecutive failures after an iteration is 0 when the invocation returned and one more
  than before when it threw; an iteration that leaves the counter at 3 is the last one and the run ends
  with exit code 1, and exit code 1 is given in no other case; so three failures in a
  row are never followed by another invocation. A run that starts with failure,
  failure, success, failure, failure has the counter at 2 after the fifth iteration
  and has not aborted there.
\<close>

theorem consecutive_failures_abort:
  fixes fsv :: "'w \<Rightarrow> fs_view" and run w
  defines "r \<equiv> runUntilSuccess fsv run w"
  shows
   "(\<forall>k<length (invocations r). fst (invocations r ! k) =
       (\<not> isl (fst (run (((\<lambda>w. snd (run w)) ^^ k) w))))) \<and>
    (\<forall>k<length (invocations r). snd (invocations r ! k) =
       (if fst (invocations r ! k) then 0
        else Suc (if k = 0 then 0 else snd (invocations r ! (k - 1))))) \<and>
    (\<forall>k<length (invocations r). snd (invocations r ! k) = maxConsecutiveFailures \<longrightarrow>
       Suc k = length (invocations r) \<and> ended r = Exit 1) \<and>
    (\<forall>k<length (invocations r). snd (invocations r ! k) \<le> maxConsecutiveFailures) \<and>
    (ended r = Exit 1 \<longrightarrow>
       invocations r \<noteq> [] \<and> snd (last (invocations r)) = maxConsecutiveFailures) \<and>
    (\<forall>ys zs. map fst (invocations r) = ys @ [False, False, False] @ zs \<longrightarrow>
       zs = [] \<and> ended r = Exit 1) \<and>
    (take 5 (map fst (invocations r)) = [False, False, True, False, False] \<longrightarrow>
       snd (invocations r ! 4) = 2 \<and> (ended r = Exit 1 \<longrightarrow> 5 < length (invocations r)))"
proof -
  let ?h = "invocations r"
  have cf: "counter_follows 0 ?h"
    and e1: "(ended r = Exit 1) = (last_counter 0 ?h = maxConsecutiveFailures)"
    using runUntilSuccess_history [of fsv run w] by (simp_all add: r_def)
  have out: "\<And>k. k < length ?h \<Longrightarrow>
       fst (?h ! k) = (\<not> isl (fst (run (((\<lambda>w. snd (run w)) ^^ k) w))))"
    unfolding r_def by (rule runUntilSuccess_outcomes)
  have nth: "\<And>k. k < length ?h \<Longrightarrow> snd (?h ! k) =
       (if fst (?h ! k) then 0 else Suc (if k = 0 then 0 else snd (?h ! (k - 1))))"
    by (rule counter_follows_nth [OF cf])
  have p2: "Suc k = length ?h \<and> ended r = Exit 1"
    if "k < length ?h" "snd (?h ! k) = maxConsecutiveFailures" for k
  proof -
    from that counter_follows_below [OF cf, of k] have k: "Suc k = length ?h"
      by (cases "Suc k < length ?h") simp_all
    then have "?h \<noteq> []" "k = length ?h - 1"
      by auto
    then have "?h \<noteq> []" "last ?h = ?h ! k"
      by (simp_all add: last_conv_nth)
    with that(2) e1 k show ?thesis by (simp add: last_counter_def)
  qed
  have p4: "?h \<noteq> [] \<and> snd (last ?h) = maxConsecutiveFailures" if "ended r = Exit 1"
    using that e1 by (cases "?h = []") (simp_all add: last_counter_def)
  have p5: "zs = [] \<and> ended r = Exit 1"
    if "map fst ?h = ys @ [False, False, False] @ zs" for ys zs
    using counter_follows_three_failures [OF cf that] e1 by simp
  have p6: "snd (?h ! 4) = 2 \<and> (ended r = Exit 1 \<longrightarrow> 5 < length ?h)"
    if t: "take 5 (map fst ?h) = [False, False, True, False, False]"
  proof -
    from t have "length (take 5 (map fst ?h)) = 5" by simp
    then have len: "5 \<le> length ?h" by simp
    from t have "\<And>k. k < 5 \<Longrightarrow> take 5 (map fst ?h) ! k = [False, False, True, False, False] ! k"
      by simp
    with len have f: "fst (?h ! 2)" "\<not> fst (?h ! 3)" "\<not> fst (?h ! 4)"
      using nth_take [of 2 5 "map fst ?h"] nth_take [of 3 5 "map fst ?h"]
        nth_take [of 4 5 "map fst ?h"] t by simp_all
    from nth [of 2] len f(1) have "snd (?h ! 2) = 0" by simp
    with nth [of 3] len f(2) have "snd (?h ! 3) = 1" by simp
    with nth [of 4] len f(3) have four: "snd (?h ! 4) = 2" by simp
    have "5 < length ?h" if "ended r = Exit 1"
    proof (rule ccontr)
      assume "\<not> 5 < length ?h"
      with len have l: "length ?h = 5" by simp
      then have "?h \<noteq> []" "4 = length ?h - 1" by auto
      then have "last ?h = ?h ! 4" by (simp add: last_conv_nth)
      with p4 [OF that] four show False by simp
    qed
    with four show ?thesis by simp
  qed
  show ?thesis
    using out nth p2 counter_follows_le [OF cf] p4 p5 p6 by blast
qed

lemma check_off_no_match: "match_unchecked_here s \<Longrightarrow> \<not> match_unchecked_here (check_off s)"
proof (induction s)
  case Nil
  then show ?case by simp
next
  case (Cons c cs)
  show ?case
  proof (cases "c = 32 \<or> c = 9")
    case True
    with Cons show ?thesis by auto
  next
    case False
    with Cons.prems obtain rest where "c # cs = js ''- [ ]'' @ rest"
      by (auto simp: prefix_def)
    then show ?thesis by auto
  qed
qed

lemma count_check_off:
  "match_unchecked_here s \<Longrightarrow>
   count_unchecked_from b (check_off s) = count_unchecked_from False s"
proof (induction s arbitrary: b)
  case Nil
  then show ?case by simp
next
  case (Cons c cs)
  show ?case
  proof (cases "c = 32 \<or> c = 9")
    case True
    with Cons.prems have m: "match_unchecked_here cs" by auto
    from True have nl: "\<not> isLineTerminator c" by (auto simp: isLineTerminator_def)
    from check_off_no_match [OF m] True have "\<not> match_unchecked_here (c # check_off cs)"
      by auto
    with True nl Cons.IH [OF m, of False] show ?thesis
      by (simp del: match_unchecked_here.simps)
  next
    case False
    with Cons.prems obtain rest where "c # cs = js ''- [ ]'' @ rest"
      by (auto simp: prefix_def)
    then have c: "c = 45" and cs: "cs = [32, 91, 32, 93] @ rest" by auto
    show ?thesis
      unfolding c cs by (simp add: isLineTerminator_def)
  qed
qed

lemma first_line_mark:
  "hd (js_lines (mark_first_done False s)) = hd (js_lines s)"
proof (induction s)
  case Nil
  show ?case by simp
next
  case (Cons c cs)
  show ?case
  proof (cases "isLineTerminator c")
    case True
    then show ?thesis by simp
  next
    case False
    with Cons show ?thesis
      by (simp add: js_lines_Cons del: js_lines.simps(2))
  qed
qed

lemma match_mark_unchanged:
  "match_unchecked_here (c # mark_first_done (isLineTerminator c) cs) = match_unchecked_here (c # cs)"
proof (cases "isLineTerminator c")
  case True
  then have "c \<noteq> 32" "c \<noteq> 9" "c \<noteq> 45" by (auto simp: isLineTerminator_def)
  then show ?thesis by (simp add: prefix_def)
next
  case False
  have "match_unchecked_here (c # mark_first_done False cs)
      = match_unchecked_here (hd (js_lines (c # mark_first_done False cs)))"
    by (rule match_unchecked_first_line [symmetric])
  also have "\<dots> = match_unchecked_here (hd (js_lines (c # cs)))"
    using False by (simp add: js_lines_Cons first_line_mark del: js_lines.simps(2) match_unchecked_here.simps)
  also have "\<dots> = match_unchecked_here (c # cs)"
    by (rule match_unchecked_first_line)
  finally show ?thesis using False by simp
qed

lemma count_mark_first_done:
  "count_unchecked_from bol (mark_first_done bol s) = count_unchecked_from bol s - 1"
proof (induction s arbitrary: bol)
  case Nil
  show ?case by simp
next
  case (Cons c cs)
  show ?case
  proof (cases "bol \<and> match_unchecked_here (c # cs)")
    case True
    then have "mark_first_done bol (c # cs) = check_off (c # cs)"
      by (simp del: match_unchecked_here.simps check_off.simps)
    moreover have "count_unchecked_from bol (check_off (c # cs)) = count_unchecked_from False (c # cs)"
      using True by (simp only: count_check_off)
    moreover have "count_unchecked_from bol (c # cs) = Suc (count_unchecked_from False (c # cs))"
      using True by (simp del: match_unchecked_here.simps)
    ultimately show ?thesis by simp
  next
    case False
    then have m: "mark_first_done bol (c # cs) = c # mark_first_done (isLineTerminator c) cs"
      by (auto simp del: match_unchecked_here.simps check_off.simps)
    have "count_unchecked_from bol (c # mark_first_done (isLineTerminator c) cs)
        = count_unchecked_from (isLineTerminator c) (mark_first_done (isLineTerminator c) cs)"
      using False match_mark_unchanged [of c cs]
      by (simp del: match_unchecked_here.simps)
    also have "\<dots> = count_unchecked_from (isLineTerminator c) cs - 1"
      by (rule Cons.IH)
    also have "\<dots> = count_unchecked_from bol (c # cs) - 1"
      using False by (auto simp del: match_unchecked_here.simps)
    finally show ?thesis unfolding m .
  qed
qed

lemma count_unchecked_entries: "count_unchecked_from True (unchecked_entries n) = n"
  by (induction n) (simp_all add: unchecked_entries_def isLineTerminator_def)

lemma while_loop_ideal:
  "1 \<le> it \<Longrightarrow> it \<le> Suc maxIterations \<Longrightarrow> count_unchecked_from True c = n \<Longrightarrow>
   k = Suc maxIterations - it \<Longrightarrow>
   ended (while_loop store_fs (ideal_agent s) it cf h c) = (if n < k then Exit 0 else Exit 2) \<and>
   invocations (while_loop store_fs (ideal_agent s) it cf h c) = h @ replicate (min n k) (True, 0) \<and>
   count_unchecked_from True (world (while_loop store_fs (ideal_agent s) it cf h c)) = n - min n k"
proof (induction k arbitrary: it cf h c n)
  case 0
  then have "\<not> it \<le> maxIterations" by simp
  with 0 show ?case by (simp add: while_loop.simps)
next
  case (Suc k)
  then have it: "it \<le> maxIterations" by simp
  show ?case
  proof (cases n)
    case 0
    with Suc.prems it show ?thesis
      by (simp add: while_loop.simps [of _ _ it] hasUnfinishedTasks_store_fs)
  next
    case (Suc m)
    let ?c' = "mark_first_done True c"
    have eq: "while_loop store_fs (ideal_agent s) it cf h c =
        while_loop store_fs (ideal_agent s) (it + 1) 0 (h @ [(True, 0)]) ?c'"
      using Suc Suc.prems it
      by (simp add: while_loop.simps [of _ _ it] hasUnfinishedTasks_store_fs ideal_agent_def)
    have "1 \<le> it + 1" "it + 1 \<le> Suc maxIterations" "count_unchecked_from True ?c' = m"
      "k = Suc maxIterations - (it + 1)"
      using Suc Suc.prems it by (simp_all add: count_mark_first_done)
    from Suc.IH [OF this] Suc show ?thesis
      unfolding eq by (simp add: replicate_app_Cons_same)
  qed
qed

lemma runUntilSuccess_ideal:
  assumes "count_unchecked_from True c = n"
  shows "ended (runUntilSuccess store_fs (ideal_agent s) c) = (if n < maxIterations then Exit 0 else Exit 2) \<and>
   invocations (runUntilSuccess store_fs (ideal_agent s) c) = replicate (min n maxIterations) (True, 0) \<and>
   count_unchecked_from True (world (runUntilSuccess store_fs (ideal_agent s) c)) = n - min n maxIterations"
proof (cases n)
  case 0
  with assms show ?thesis
    by (simp add: runUntilSuccess_def hasUnfinishedTasks_store_fs)
next
  case (Suc m)
  with assms have eq: "runUntilSuccess store_fs (ideal_agent s) c = while_loop store_fs (ideal_agent s) 1 0 [] c"
    by (simp add: runUntilSuccess_def hasUnfinishedTasks_store_fs)
  have "(1::nat) \<le> 1" "(1::nat) \<le> Suc maxIterations" "maxIterations = Suc maxIterations - 1"
    by simp_all
  from while_loop_ideal [OF this(1,2) assms this(3)] show ?thesis
    unfolding eq by simp
qed

lemmas run_script_simps =
  runUntilSuccess_def while_loop.simps script_fs_def script_run_def hasUnfinishedTasks_store_fs

lemma script_run_recovers:
  "runUntilSuccess script_fs script_run [False, False, True, False, False] =
     \<lparr>ended = Exit 0,
      invocations = [(False, 1), (False, 2), (True, 0), (False, 1), (False, 2)],
      world = []\<rparr>"
  by (simp add: run_script_simps)

lemma script_run_aborts:
  "runUntilSuccess script_fs script_run [True, False, False, False, True] =
     \<lparr>ended = Exit 1,
      invocations = [(True, 0), (False, 1), (False, 2), (False, 3)],
      world = [True]\<rparr>"
  by (simp add: run_script_simps)

theorem consecutive_failures_abort_witness:
  "isl (fst (script_run [False, False, True, False, False])) \<and>
   snd (invocations (runUntilSuccess script_fs script_run [False, False, True, False, False]) ! 4) = 2 \<and>
   ended (runUntilSuccess script_fs script_run [False, False, True, False, False]) \<noteq> Exit 1 \<and>
   ended (runUntilSuccess script_fs script_run [True, False, False, False, True]) = Exit 1 \<and>
   length (invocations (runUntilSuccess script_fs script_run [True, False, False, False, True])) = 4"
proof -
  let ?r = "runUntilSuccess script_fs script_run [False, False, True, False, False]"
  let ?a = "runUntilSuccess script_fs script_run [True, False, False, False, True]"
  have "take 5 (map fst (invocations ?r)) = [False, False, True, False, False]"
    by (simp add: script_run_recovers)
  with consecutive_failures_abort [of script_fs script_run "[False, False, True, False, False]"]
  have "snd (invocations ?r ! 4) = 2" "ended ?r = Exit 1 \<longrightarrow> 5 < length (invocations ?r)"
    by blast+
  moreover have "length (invocations ?r) = 5"
    by (simp add: script_run_recovers)
  moreover have "isl (fst (script_run [False, False, True, False, False]))"
    by (simp add: script_run_def)
  moreover have "map fst (invocations ?a) = [True] @ [False, False, False] @ []"
    by (simp add: script_run_aborts)
  with consecutive_failures_abort [of script_fs script_run "[True, False, False, False, True]"]
  have "ended ?a = Exit 1"
    by blast
  moreover have "length (invocations ?a) = 4"
    by (simp add: script_run_aborts)
  ultimately show ?thesis by simp
qed

lemma last_counter_le:
  "counter_follows c h \<Longrightarrow> c \<le> maxConsecutiveFailures \<Longrightarrow> last_counter c h \<le> maxConsecutiveFailures"
proof (cases "h = []")
  case True
  assume "c \<le> maxConsecutiveFailures"
  with True show ?thesis by (simp add: last_counter_def)
next
  case False
  assume "counter_follows c h"
  from counter_follows_le [OF this, of "length h - 1"] False show ?thesis
    by (simp add: last_counter_def last_conv_nth)
qed

text \<open>
  C3. No run of \<^verbatim>\<open>runUntilSuccess\<close> makes more than 50 invocations. A run that has made
  50 invocations and was not aborted for three consecutive failures (the 50th
  iteration did not leave the counter at 3) ends with exit code 2; the task store is
  not looked at again after the 50th iteration, so such a run never ends in the
  all-tasks-done state. Exit code 2 is given after 50 invocations only.
\<close>

theorem iteration_ceiling:
  fixes fsv :: "'w \<Rightarrow> fs_view" and run w
  defines "r \<equiv> runUntilSuccess fsv run w"
  shows
   "length (invocations r) \<le> maxIterations \<and>
    (length (invocations r) = maxIterations \<and> ended r \<noteq> Exit 1 \<longrightarrow> ended r = Exit 2) \<and>
    (length (invocations r) = maxIterations \<and>
       snd (last (invocations r)) < maxConsecutiveFailures \<longrightarrow> ended r = Exit 2) \<and>
    (ended r = Exit 2 \<longrightarrow> length (invocations r) = maxIterations)"
proof -
  let ?h = "invocations r"
  have cf: "counter_follows 0 ?h"
    and len: "length ?h \<le> maxIterations"
    and e1: "(ended r = Exit 1) = (last_counter 0 ?h = maxConsecutiveFailures)"
    and e2: "(ended r = Exit 2) =
      (length ?h = maxIterations \<and> last_counter 0 ?h < maxConsecutiveFailures)"
    using runUntilSuccess_history [of fsv run w] by (simp_all add: r_def)
  have le: "last_counter 0 ?h \<le> maxConsecutiveFailures"
    by (rule last_counter_le [OF cf]) simp
  have a: "ended r = Exit 2" if "length ?h = maxIterations" "ended r \<noteq> Exit 1"
    using that e1 e2 le by simp
  have b: "ended r = Exit 2"
    if "length ?h = maxIterations" "snd (last ?h) < maxConsecutiveFailures"
  proof -
    from that(1) have "?h \<noteq> []" by auto
    with that e2 show ?thesis by (simp add: last_counter_def)
  qed
  from len a b e2 show ?thesis by blast
qed

theorem iteration_ceiling_witness:
  "length (invocations (runUntilSuccess store_fs (ideal_agent (\<lambda>c. js ''done'')) (unchecked_entries 60)))
     = maxIterations \<and>
   ended (runUntilSuccess store_fs (ideal_agent (\<lambda>c. js ''done'')) (unchecked_entries 60)) = Exit 2"
proof -
  let ?r = "runUntilSuccess store_fs (ideal_agent (\<lambda>c. js ''done'')) (unchecked_entries 60)"
  have "invocations ?r = replicate maxIterations (True, 0)"
    using runUntilSuccess_ideal [OF count_unchecked_entries, of "\<lambda>c. js ''done''" 60] by simp
  then have "length (invocations ?r) = maxIterations"
    "snd (last (invocations ?r)) < maxConsecutiveFailures"
    by simp_all
  with iteration_ceiling [of store_fs "ideal_agent (\<lambda>c. js ''done'')" "unchecked_entries 60"]
  show ?thesis by blast
qed

text \<open>
  C2, as stated, fails: with 51 unchecked entries and an agent that always succeeds and
  checks off the first unchecked entry, the controller makes 50 invocations, not 51,
  and ends with exit code 2, not 0.
\<close>

theorem always_succeeding_controller_counterexample:
  "count_unchecked_from True (unchecked_entries 51) = 51 \<and>
   ended (runUntilSuccess store_fs (ideal_agent (\<lambda>c. js ''done'')) (unchecked_entries 51)) = Exit 2 \<and>
   length (invocations
     (runUntilSuccess store_fs (ideal_agent (\<lambda>c. js ''done'')) (unchecked_entries 51))) = 50 \<and>
   \<not> (ended (runUntilSuccess store_fs (ideal_agent (\<lambda>c. js ''done'')) (unchecked_entries 51)) = Exit 0 \<and>
      length (invocations
        (runUntilSuccess store_fs (ideal_agent (\<lambda>c. js ''done'')) (unchecked_entries 51))) = 51)"
  using runUntilSuccess_ideal [OF count_unchecked_entries, of "\<lambda>c. js ''done''" 51]
  by (simp add: count_unchecked_entries)

text \<open>
  C2, amended. For a task store with \<open>N\<close> unchecked entries and an agent that always
  succeeds and marks the first unchecked entry complete: when \<open>N < 50\<close>, the controller
  makes exactly \<open>N\<close> invocations, all successful, and ends with exit code 0, with no
  unchecked entry left (for \<open>N = 0\<close> it makes none); when \<open>N > 50\<close>, it makes exactly 50
  invocations and ends with exit code 2.
\<close>

theorem always_succeeding_controller:
  assumes "count_unchecked_from True content = N"
  shows
   "(N < maxIterations \<longrightarrow>
       ended (runUntilSuccess store_fs (ideal_agent summary) content) = Exit 0 \<and>
       invocations (runUntilSuccess store_fs (ideal_agent summary) content) = replicate N (True, 0) \<and>
       count_unchecked_from True (world (runUntilSuccess store_fs (ideal_agent summary) content)) = 0) \<and>
    (maxIterations < N \<longrightarrow>
       ended (runUntilSuccess store_fs (ideal_agent summary) content) = Exit 2 \<and>
       invocations (runUntilSuccess store_fs (ideal_agent summary) content)
         = replicate maxIterations (True, 0))"
  using runUntilSuccess_ideal [OF assms, of summary] by simp

theorem always_succeeding_controller_witness:
  "ended (runUntilSuccess store_fs (ideal_agent (\<lambda>c. js ''done''))
      (js ''# Plan'' @ [10] @ js ''- [ ] a'' @ [10] @ js ''  - [ ] b'' @ [10])) = Exit 0 \<and>
   invocations (runUntilSuccess store_fs (ideal_agent (\<lambda>c. js ''done''))
      (js ''# Plan'' @ [10] @ js ''- [ ] a'' @ [10] @ js ''  - [ ] b'' @ [10])) = [(True, 0), (True, 0)] \<and>
   ended (runUntilSuccess store_fs (ideal_agent (\<lambda>c. js ''done'')) []) = Exit 0 \<and>
   invocations (runUntilSuccess store_fs (ideal_agent (\<lambda>c. js ''done'')) []) = [] \<and>
   ended (runUntilSuccess store_fs (ideal_agent (\<lambda>c. js ''done'')) (unchecked_entries 60)) = Exit 2"
proof -
  let ?plan = "js ''# Plan'' @ [10] @ js ''- [ ] a'' @ [10] @ js ''  - [ ] b'' @ [10]"
  have "count_unchecked_from True ?plan = 2"
    by (simp add: isLineTerminator_def)
  from always_succeeding_controller [OF this, of "\<lambda>c. js ''done''"]
  have a: "ended (runUntilSuccess store_fs (ideal_agent (\<lambda>c. js ''done'')) ?plan) = Exit 0"
    "invocations (runUntilSuccess store_fs (ideal_agent (\<lambda>c. js ''done'')) ?plan) = [(True, 0), (True, 0)]"
    by (simp_all add: numeral_2_eq_2)
  have "count_unchecked_from True [] = 0" by simp
  from always_succeeding_controller [OF this, of "\<lambda>c. js ''done''"]
  have b: "ended (runUntilSuccess store_fs (ideal_agent (\<lambda>c. js ''done'')) []) = Exit 0"
    "invocations (runUntilSuccess store_fs (ideal_agent (\<lambda>c. js ''done'')) []) = []"
    by simp_all
  from always_succeeding_controller [OF count_unchecked_entries, of 60 "\<lambda>c. js ''done''"]
  have c: "ended (runUntilSuccess store_fs (ideal_agent (\<lambda>c. js ''done'')) (unchecked_entries 60)) = Exit 2"
    by simp
  from a b c show ?thesis by simp
qed

section \<open>Theorems: commit reconciler\<close>

lemma set_trim: "set (trim s) \<subseteq> set s"
  by (auto simp: trim_def dest!: set_dropWhileD)

lemma length_trim: "length (trim s) \<le> length s"
  using length_dropWhile_le [of isWhiteSpace "rev (dropWhile isWhiteSpace s)"]
    length_dropWhile_le [of isWhiteSpace s]
  by (simp add: trim_def)

lemma trim_Nil: "trim [] = []"
  by (simp add: trim_def)

lemma trim_ends:
  assumes "trim s \<noteq> []"
  shows "\<not> isWhiteSpace (hd (trim s))" and "\<not> isWhiteSpace (last (trim s))"
proof -
  let ?d = "dropWhile isWhiteSpace s"
  let ?e = "dropWhile isWhiteSpace (rev ?d)"
  from assms have e: "?e \<noteq> []" by (simp add: trim_def)
  then have d: "?d \<noteq> []"
    by (metis dropWhile.simps(1) rev.simps(1))
  from e have "\<not> isWhiteSpace (hd ?e)" by (rule hd_dropWhile)
  with e show "\<not> isWhiteSpace (last (trim s))"
    by (simp add: trim_def last_rev)
  from d have hd: "\<not> isWhiteSpace (hd ?d)" by (rule hd_dropWhile)
  have "rev ?d = takeWhile isWhiteSpace (rev ?d) @ ?e" by simp
  then have "?d = rev ?e @ rev (takeWhile isWhiteSpace (rev ?d))"
    by (metis rev_append rev_rev_ident)
  with e have "hd ?d = hd (rev ?e)"
    by (metis hd_append2 rev_is_Nil_conv)
  with hd show "\<not> isWhiteSpace (hd (trim s))"
    by (simp add: trim_def)
qed

lemma trim_id:
  assumes "s \<noteq> []" "\<not> isWhiteSpace (hd s)" "\<not> isWhiteSpace (last s)"
  shows "trim s = s"
proof -
  from assms(1,2) have "dropWhile isWhiteSpace s = s" by (cases s) simp_all
  moreover from assms(1,3) have "dropWhile isWhiteSpace (rev s) = rev s"
    by (cases "rev s") (simp_all add: hd_rev [symmetric])
  ultimately show ?thesis by (simp add: trim_def)
qed

lemma normalize_spaces_safe:
  "\<forall>c\<in>set s. isSafeChar c \<Longrightarrow> \<forall>c\<in>set (normalize_spaces s). isSafeChar c"
proof (induction s rule: normalize_spaces.induct)
  case 1
  show ?case by simp
next
  case (2 c cs)
  show ?case
  proof (cases "isWhiteSpace c")
    case True
    from "2.prems" have "\<forall>c\<in>set (dropWhile isWhiteSpace cs). isSafeChar c"
      by (auto dest: set_dropWhileD)
    from "2.IH"(1) [OF True this] True show ?thesis
      by (simp add: isSafeChar_def)
  next
    case False
    with "2.IH"(2) "2.prems" show ?thesis by simp
  qed
qed

lemma clean_task_safe: "\<forall>c\<in>set (clean_task td). isSafeChar c"
proof -
  have "\<forall>c\<in>set (normalize_spaces (filter isSafeChar (or_default td (js ''task'')))). isSafeChar c"
    by (rule normalize_spaces_safe) simp
  with set_trim show ?thesis
    unfolding clean_task_def by blast
qed

lemma clean_task_ends:
  assumes "clean_task td \<noteq> []"
  shows "\<not> isWhiteSpace (hd (clean_task td))" and "\<not> isWhiteSpace (last (clean_task td))"
  using assms trim_ends unfolding clean_task_def by blast+

lemma set_truncate_task: "set (truncate_task t) \<subseteq> set t"
  by (auto simp: truncate_task_def Let_def dest: in_set_takeD)

lemma length_truncate_task: "length (truncate_task t) \<le> 50"
  by (simp add: truncate_task_def Let_def)

lemma task_literal_safe: "\<forall>c\<in>set (js ''task''). isSafeChar c"
  by (simp add: isSafeChar_def)

lemma sanitize_task_cases:
  "sanitize_task td = js ''task'' \<or>
   (sanitize_task td = trim (truncate_task (clean_task td)) \<and> trim (truncate_task (clean_task td)) \<noteq> [])"
  by (simp add: sanitize_task_def or_default_def)

lemma sanitize_task_safe: "\<forall>c\<in>set (sanitize_task td). isSafeChar c"
proof -
  have "set (trim (truncate_task (clean_task td))) \<subseteq> set (clean_task td)"
    using set_trim set_truncate_task by blast
  with clean_task_safe have "\<forall>c\<in>set (trim (truncate_task (clean_task td))). isSafeChar c"
    by blast
  with task_literal_safe sanitize_task_cases [of td] show ?thesis
    by metis
qed

lemma length_sanitize_task: "length (sanitize_task td) \<le> 50"
proof -
  have "length (trim (truncate_task (clean_task td))) \<le> 50"
    using length_trim [of "truncate_task (clean_task td)"] length_truncate_task [of "clean_task td"]
    by simp
  moreover have "length (js ''task'') \<le> 50" by simp
  ultimately show ?thesis
    using sanitize_task_cases [of td] by metis
qed

lemma sanitize_task_not_Nil: "sanitize_task td \<noteq> []"
  using sanitize_task_cases [of td] by auto

lemma sanitize_task_fallback:
  "filter isSafeChar (or_default td (js ''task'')) = [] \<Longrightarrow> sanitize_task td = js ''task''"
  by (simp add: sanitize_task_def clean_task_def truncate_task_def trim_def or_default_def)

lemma lastIndexOf_props:
  assumes "lastIndexOf t c \<ge> 0"
  shows "nat (lastIndexOf t c) < length t" and "t ! nat (lastIndexOf t c) = c"
proof -
  let ?d = "dropWhile (\<lambda>x. x \<noteq> c) (rev t)"
  from assms have d: "?d \<noteq> []" by (simp add: lastIndexOf_def)
  have n: "nat (lastIndexOf t c) = length ?d - 1"
    by (simp add: lastIndexOf_def)
  have "length ?d \<le> length (rev t)" by (rule length_dropWhile_le)
  with d show "nat (lastIndexOf t c) < length t"
    unfolding n by (cases ?d) simp_all
  from d have h: "hd ?d = c" using hd_dropWhile [of "\<lambda>x. x \<noteq> c" "rev t"] by simp
  have "rev t = takeWhile (\<lambda>x. x \<noteq> c) (rev t) @ ?d" by simp
  then have t: "t = rev ?d @ rev (takeWhile (\<lambda>x. x \<noteq> c) (rev t))"
    by (metis rev_append rev_rev_ident)
  have "(rev ?d @ rev (takeWhile (\<lambda>x. x \<noteq> c) (rev t))) ! (length ?d - 1) = rev ?d ! (length ?d - 1)"
    using d by (simp add: nth_append)
  also have "\<dots> = last (rev ?d)"
    using d by (simp add: last_conv_nth)
  also have "\<dots> = c"
    using d h by (simp add: last_rev)
  finally show "t ! nat (lastIndexOf t c) = c"
    unfolding n using t by simp
qed

lemma lastIndexOf_last:
  assumes "t \<noteq> []" "last t = c"
  shows "lastIndexOf t c = int (length t) - 1"
proof -
  from assms have "hd (rev t) = c" "rev t \<noteq> []"
    by (simp_all add: hd_rev)
  then have "dropWhile (\<lambda>x. x \<noteq> c) (rev t) = rev t"
    by (cases "rev t") simp_all
  then show ?thesis by (simp add: lastIndexOf_def)
qed

lemma white_safe_is_space: "isWhiteSpace c \<Longrightarrow> isSafeChar c \<Longrightarrow> c = 32"
  by (auto simp: isWhiteSpace_def isSafeChar_def)

lemma trim_prefix:
  assumes "s \<noteq> []" "\<not> isWhiteSpace (hd s)"
  shows "\<exists>w. s = trim s @ w \<and> (\<forall>c\<in>set w. isWhiteSpace c) \<and> trim s \<noteq> []"
proof -
  from assms have d: "dropWhile isWhiteSpace s = s" by (cases s) simp_all
  let ?w = "rev (takeWhile isWhiteSpace (rev s))"
  have "rev s = takeWhile isWhiteSpace (rev s) @ dropWhile isWhiteSpace (rev s)" by simp
  then have "s = rev (dropWhile isWhiteSpace (rev s)) @ ?w"
    by (metis rev_append rev_rev_ident)
  with d have s: "s = trim s @ ?w" by (simp add: trim_def)
  have w: "\<forall>c\<in>set ?w. isWhiteSpace c"
    by (auto dest: set_takeWhileD)
  have "trim s \<noteq> []"
  proof
    assume "trim s = []"
    with s have "s = ?w" by simp
    with assms(1) have "hd s \<in> set ?w" by (metis hd_in_set)
    with w assms(2) show False by blast
  qed
  with s w show ?thesis by blast
qed

lemma sanitize_task_short:
  assumes "clean_task td \<noteq> []" "length (clean_task td) \<le> 50"
  shows "sanitize_task td = clean_task td"
proof -
  from assms(2) have "truncate_task (clean_task td) = clean_task td"
    by (simp add: truncate_task_def)
  moreover have "trim (clean_task td) = clean_task td"
    by (rule trim_id [OF assms(1) clean_task_ends [OF assms(1)]])
  ultimately show ?thesis
    using assms(1) by (simp add: sanitize_task_def or_default_def)
qed

lemma sanitize_task_hard_cut:
  assumes "length (clean_task td) > 50" "lastIndexOf (take 50 (clean_task td)) 32 \<le> 30"
  shows "sanitize_task td = take 50 (clean_task td)"
proof -
  let ?s = "clean_task td"
  let ?t = "take 50 ?s"
  from assms(1) have s: "?s \<noteq> []" and t: "?t \<noteq> []" and lt: "length ?t = 50" by auto
  from assms have tr: "truncate_task ?s = ?t"
    by (simp add: truncate_task_def Let_def)
  from s have "hd ?t = hd ?s" by (cases ?s) simp_all
  with clean_task_ends(1) [OF s] have h: "\<not> isWhiteSpace (hd ?t)" by simp
  have l: "\<not> isWhiteSpace (last ?t)"
  proof
    assume ws: "isWhiteSpace (last ?t)"
    from t have "last ?t \<in> set ?s" by (metis last_in_set in_set_takeD)
    with clean_task_safe have "isSafeChar (last ?t)" by blast
    with ws have "last ?t = 32" by (rule white_safe_is_space)
    from lastIndexOf_last [OF t this] lt assms(2) show False by simp
  qed
  from trim_id [OF t h l] tr t show ?thesis
    by (simp add: sanitize_task_def or_default_def)
qed

lemma sanitize_task_word_cut:
  assumes "length (clean_task td) > 50" "lastIndexOf (take 50 (clean_task td)) 32 > 30"
  shows "prefix (sanitize_task td) (clean_task td)"
    and "length (sanitize_task td) < length (clean_task td)"
    and "clean_task td ! length (sanitize_task td) = 32"
proof -
  let ?s = "clean_task td"
  let ?t = "take 50 ?s"
  let ?n = "nat (lastIndexOf ?t 32)"
  let ?r0 = "take ?n ?s"
  from assms(1) have s: "?s \<noteq> []" and lt: "length ?t = 50" by auto
  from assms(2) have ge: "lastIndexOf ?t 32 \<ge> 0" and n30: "30 < ?n" by simp_all
  from lastIndexOf_props [OF ge] lt have n: "?n < 50" and at: "?t ! ?n = 32" by simp_all
  from n at have sn: "?s ! ?n = 32" by simp
  from n have "take ?n ?t = ?r0" by (simp add: min_def)
  with assms have tr: "truncate_task ?s = ?r0"
    by (simp add: truncate_task_def Let_def)
  from n30 n assms(1) have r0: "?r0 \<noteq> []" by auto
  from s n30 have "hd ?r0 = hd ?s" by (cases ?s) simp_all
  with clean_task_ends(1) [OF s] have h: "\<not> isWhiteSpace (hd ?r0)" by simp
  from trim_prefix [OF r0 h] obtain w where
    w: "?r0 = trim ?r0 @ w" "\<forall>c\<in>set w. isWhiteSpace c" "trim ?r0 \<noteq> []"
    by blast
  from w(3) tr have san: "sanitize_task td = trim ?r0"
    by (simp add: sanitize_task_def or_default_def)
  have s': "?s = ?r0 @ drop ?n ?s" by simp
  with w(1) have decomp: "?s = trim ?r0 @ w @ drop ?n ?s"
    by (metis append.assoc)
  then show "prefix (sanitize_task td) ?s"
    unfolding san by (metis prefixI)
  have "length (trim ?r0) \<le> length ?r0" by (rule length_trim)
  with n assms(1) have len: "length (trim ?r0) \<le> ?n" "?n < length ?s" by simp_all
  then show "length (sanitize_task td) < length ?s"
    unfolding san by simp
  show "?s ! length (sanitize_task td) = 32"
  proof (cases w)
    case Nil
    with w(1) have "length (trim ?r0) = length ?r0" by simp
    with len(2) have "length (trim ?r0) = ?n" by simp
    with sn show ?thesis unfolding san by simp
  next
    case (Cons c w')
    with decomp have "?s = trim ?r0 @ c # (w' @ drop ?n ?s)" by simp
    then have "?s ! length (trim ?r0) = c"
      by (metis nth_append_length)
    moreover from Cons w(2) have "isWhiteSpace c" by simp
    moreover have "c \<in> set ?s"
      using Cons w(1) by (metis in_set_takeD in_set_conv_decomp)
    with clean_task_safe have "isSafeChar c" by blast
    ultimately show ?thesis
      unfolding san using white_safe_is_space by simp
  qed
qed

lemmas sanitize_simps =
  sanitize_task_def clean_task_def truncate_task_def or_default_def trim_def isSafeChar_def
  isWhiteSpace_def lastIndexOf_def Let_def

lemma session_of_length: "length (session_of sid) \<le> 6"
  by (auto simp: session_of_def slice_last_def split: option.split)

lemma timestamp_of_length: "length (timestamp_of now) \<le> 8"
proof -
  have "length (timestamp_of now) \<le> length (take 8 (drop 11 now))"
    unfolding timestamp_of_def by (rule length_filter_le)
  then show ?thesis by simp
qed

lemma normalize_spaces_hd:
  "s \<noteq> [] \<Longrightarrow> \<not> isWhiteSpace (hd s) \<Longrightarrow>
   normalize_spaces s \<noteq> [] \<and> hd (normalize_spaces s) = hd s"
  by (cases s) simp_all

lemma normalize_spaces_single:
  "successively (\<lambda>a b. \<not> (isWhiteSpace a \<and> isWhiteSpace b)) (normalize_spaces s)"
proof (induction s rule: normalize_spaces.induct)
  case 1
  show ?case by simp
next
  case (2 c cs)
  show ?case
  proof (cases "isWhiteSpace c")
    case True
    let ?d = "dropWhile isWhiteSpace cs"
    have "normalize_spaces ?d = [] \<or> \<not> isWhiteSpace (hd (normalize_spaces ?d))"
    proof (cases "?d = []")
      case True
      then show ?thesis by (metis normalize_spaces.simps(1))
    next
      case False
      then have "\<not> isWhiteSpace (hd ?d)" by (rule hd_dropWhile)
      with normalize_spaces_hd [OF False] show ?thesis by simp
    qed
    with "2.IH"(1) [OF True] True show ?thesis
      by (auto simp: successively_Cons)
  next
    case False
    with "2.IH"(2) show ?thesis
      by (auto simp: successively_Cons)
  qed
qed

lemma trim_middle: "\<exists>a b. s = a @ trim s @ b"
proof -
  let ?d = "dropWhile isWhiteSpace s"
  have "s = takeWhile isWhiteSpace s @ ?d" by simp
  moreover have "rev ?d = takeWhile isWhiteSpace (rev ?d) @ dropWhile isWhiteSpace (rev ?d)"
    by simp
  then have "?d = trim s @ rev (takeWhile isWhiteSpace (rev ?d))"
    unfolding trim_def by (metis rev_append rev_rev_ident)
  ultimately show ?thesis by metis
qed

lemma clean_task_single:
  "successively (\<lambda>a b. \<not> (isWhiteSpace a \<and> isWhiteSpace b)) (clean_task td)"
proof -
  let ?n = "normalize_spaces (filter isSafeChar (or_default td (js ''task'')))"
  obtain a b where "?n = a @ trim ?n @ b" using trim_middle by blast
  with normalize_spaces_single [of "filter isSafeChar (or_default td (js ''task''))"]
  have "successively (\<lambda>a b. \<not> (isWhiteSpace a \<and> isWhiteSpace b)) (a @ trim ?n @ b)"
    by simp
  then show ?thesis
    unfolding clean_task_def by (auto simp: successively_append_iff)
qed

lemma sanitize_task_word_cut_exact:
  assumes "length (clean_task td) > 50" "lastIndexOf (take 50 (clean_task td)) 32 > 30"
  shows "sanitize_task td = take (nat (lastIndexOf (take 50 (clean_task td)) 32)) (clean_task td)"
    and "clean_task td ! nat (lastIndexOf (take 50 (clean_task td)) 32) = 32"
proof -
  let ?s = "clean_task td"
  let ?t = "take 50 ?s"
  let ?n = "nat (lastIndexOf ?t 32)"
  let ?r0 = "take ?n ?s"
  from assms(1) have s: "?s \<noteq> []" and lt: "length ?t = 50" by auto
  from assms(2) have ge: "lastIndexOf ?t 32 \<ge> 0" and n30: "30 < ?n" by simp_all
  from lastIndexOf_props [OF ge] lt have n: "?n < 50" and at: "?t ! ?n = 32" by simp_all
  from n at show sn: "?s ! ?n = 32" by simp
  from n have "take ?n ?t = ?r0" by (simp add: min_def)
  with assms have tr: "truncate_task ?s = ?r0"
    by (simp add: truncate_task_def Let_def)
  from n30 n assms(1) have r0: "?r0 \<noteq> []" by auto
  from s n30 have "hd ?r0 = hd ?s" by (cases ?s) simp_all
  with clean_task_ends(1) [OF s] have h: "\<not> isWhiteSpace (hd ?r0)" by simp
  from n30 obtain j where j: "?n = Suc j" by (cases ?n) simp_all
  with n assms(1) have "Suc j < length ?s" by simp
  from successively_nth [OF clean_task_single this]
  have "\<not> (isWhiteSpace (?s ! j) \<and> isWhiteSpace (?s ! Suc j))" .
  moreover from sn j have "isWhiteSpace (?s ! Suc j)" by (simp add: isWhiteSpace_def)
  ultimately have "\<not> isWhiteSpace (?s ! j)" by simp
  moreover have "last ?r0 = ?s ! j"
    using j n assms(1) r0 by (simp add: last_conv_nth)
  ultimately have l: "\<not> isWhiteSpace (last ?r0)" by simp
  from trim_id [OF r0 h l] tr r0 show "sanitize_task td = ?r0"
    by (simp add: sanitize_task_def or_default_def)
qed

lemma timestamp_of_iso:
  assumes "length d = 11" "58 \<notin> {h1, h2, m1, m2, s1, s2}"
  shows "timestamp_of (d @ [h1, h2, 58, m1, m2, 58, s1, s2] @ rest) = [h1, h2, m1, m2, s1, s2]"
  using assms by (auto simp: timestamp_of_def)

lemma sanitize_task_small:
  assumes "length (clean_task td) \<le> 50"
  shows "sanitize_task td = (if clean_task td = [] then js ''task'' else clean_task td)"
proof (cases "clean_task td = []")
  case True
  then show ?thesis
    by (simp add: sanitize_task_def truncate_task_def trim_def or_default_def)
next
  case False
  with sanitize_task_short [OF False assms] show ?thesis by simp
qed

text \<open>
  C8, as stated, fails in its word boundary: a description whose cleaned text is longer
  than 50 characters with no space between the indices 31 and 49 is cut in the middle
  of a word.
\<close>

theorem commit_message_sanitized_counterexample:
  "clean_task (Some (js ''Refactor the AuthenticationConfigurationManagerFactoryBuilder''))
     = js ''Refactor the AuthenticationConfigurationManagerFactoryBuilder'' \<and>
   sanitize_task (Some (js ''Refactor the AuthenticationConfigurationManagerFactoryBuilder''))
     = js ''Refactor the AuthenticationConfigurationManagerFac'' \<and>
   \<not> at_word_boundary
       (clean_task (Some (js ''Refactor the AuthenticationConfigurationManagerFactoryBuilder'')))
       (sanitize_task (Some (js ''Refactor the AuthenticationConfigurationManagerFactoryBuilder'')))"
proof -
  have c: "clean_task (Some (js ''Refactor the AuthenticationConfigurationManagerFactoryBuilder''))
     = js ''Refactor the AuthenticationConfigurationManagerFactoryBuilder''"
    by (simp add: sanitize_simps)
  have s: "sanitize_task (Some (js ''Refactor the AuthenticationConfigurationManagerFactoryBuilder''))
     = js ''Refactor the AuthenticationConfigurationManagerFac''"
    by (simp add: sanitize_simps)
  show ?thesis
    unfolding c s by (simp add: at_word_boundary_def)
qed

text \<open>
  C8, amended. For every task description (\<^verbatim>\<open>null\<close> included), the task segment of the
  commit message holds only characters of \<^verbatim>\<open>[a-zA-Z0-9 \-_]\<close> and is at most 50
  characters long. The cleaned text (unsafe characters deleted, white space normalised,
  ends trimmed) is kept whole when it is at most 50 characters long, the literal
  \<^verbatim>\<open>task\<close> standing in for an empty one. A longer one is cut just before the last space
  of its first 50 characters, a word boundary, when that space is at an index above 30
  (the guard of line 482); otherwise it is cut after exactly 50 characters, wherever
  that falls. The text \<^verbatim>\<open>Add POST /login endpoint!! (urgent)\<close> gives
  \<^verbatim>\<open>Add POST login endpoint urgent\<close>. With a clock in the ISO format, the message is
  \<^verbatim>\<open>RALPHIO: \<close>, the segment, and in brackets the last six characters of the session id
  (\<^verbatim>\<open>nosess\<close> without one), a hyphen and the six digits of the time of day.
\<close>

theorem commit_message_sanitized:
  "(\<forall>c\<in>set (sanitize_task td). isSafeChar c) \<and>
   length (sanitize_task td) \<le> 50 \<and>
   (length (clean_task td) \<le> 50 \<longrightarrow>
      sanitize_task td = (if clean_task td = [] then js ''task'' else clean_task td)) \<and>
   (50 < length (clean_task td) \<and> 30 < lastIndexOf (take 50 (clean_task td)) 32 \<longrightarrow>
      sanitize_task td = take (nat (lastIndexOf (take 50 (clean_task td)) 32)) (clean_task td) \<and>
      clean_task td ! nat (lastIndexOf (take 50 (clean_task td)) 32) = 32 \<and>
      at_word_boundary (clean_task td) (sanitize_task td)) \<and>
   (50 < length (clean_task td) \<and> lastIndexOf (take 50 (clean_task td)) 32 \<le> 30 \<longrightarrow>
      sanitize_task td = take 50 (clean_task td)) \<and>
   sanitize_task (Some (js ''Add POST /login endpoint!! (urgent)''))
     = js ''Add POST login endpoint urgent'' \<and>
   (\<forall>d h1 h2 m1 m2 s1 s2 rest.
      length d = 11 \<and> 58 \<notin> {h1, h2, m1, m2, s1, s2} \<longrightarrow>
      commit_message (d @ [h1, h2, 58, m1, m2, 58, s1, s2] @ rest) td sid =
        js ''RALPHIO: '' @ sanitize_task td @ js '' [''
          @ (case sid of
               None \<Rightarrow> js ''nosess''
             | Some x \<Rightarrow> if x = [] then js ''nosess'' else drop (length x - 6) x)
          @ js ''-'' @ [h1, h2, m1, m2, s1, s2] @ js '']'')"
proof (intro conjI impI allI)
  show "\<forall>c\<in>set (sanitize_task td). isSafeChar c" by (rule sanitize_task_safe)
  show "length (sanitize_task td) \<le> 50" by (rule length_sanitize_task)
  show "sanitize_task (Some (js ''Add POST /login endpoint!! (urgent)''))
     = js ''Add POST login endpoint urgent''"
    by (simp add: sanitize_simps)
next
  assume "length (clean_task td) \<le> 50"
  then show "sanitize_task td = (if clean_task td = [] then js ''task'' else clean_task td)"
    by (rule sanitize_task_small)
next
  assume a: "50 < length (clean_task td) \<and> 30 < lastIndexOf (take 50 (clean_task td)) 32"
  then have l: "50 < length (clean_task td)" and sp: "30 < lastIndexOf (take 50 (clean_task td)) 32"
    by simp_all
  show "sanitize_task td = take (nat (lastIndexOf (take 50 (clean_task td)) 32)) (clean_task td)"
    by (rule sanitize_task_word_cut_exact(1) [OF l sp])
  show "clean_task td ! nat (lastIndexOf (take 50 (clean_task td)) 32) = 32"
    by (rule sanitize_task_word_cut_exact(2) [OF l sp])
  from sanitize_task_word_cut [OF l sp]
  show "at_word_boundary (clean_task td) (sanitize_task td)"
    by (simp add: at_word_boundary_def)
next
  assume "50 < length (clean_task td) \<and> lastIndexOf (take 50 (clean_task td)) 32 \<le> 30"
  then show "sanitize_task td = take 50 (clean_task td)"
    by (simp add: sanitize_task_hard_cut)
next
  fix d rest :: jsstring and h1 h2 m1 m2 s1 s2 :: nat
  assume "length d = 11 \<and> 58 \<notin> {h1, h2, m1, m2, s1, s2}"
  then have "timestamp_of (d @ [h1, h2, 58, m1, m2, 58, s1, s2] @ rest) = [h1, h2, m1, m2, s1, s2]"
    by (intro timestamp_of_iso) simp_all
  then show "commit_message (d @ [h1, h2, 58, m1, m2, 58, s1, s2] @ rest) td sid =
        js ''RALPHIO: '' @ sanitize_task td @ js '' [''
          @ (case sid of
               None \<Rightarrow> js ''nosess''
             | Some x \<Rightarrow> if x = [] then js ''nosess'' else drop (length x - 6) x)
          @ js ''-'' @ [h1, h2, m1, m2, s1, s2] @ js '']''"
    by (simp add: commit_message_def session_of_def slice_last_def split: option.split)
qed

theorem commit_message_sanitized_witness:
  "sanitize_task (Some (js ''Implement the user login form with validation and error messages''))
     = js ''Implement the user login form with validation and'' \<and>
   sanitize_task (Some (js ''Refactor the AuthenticationConfigurationManagerFactoryBuilder''))
     = js ''Refactor the AuthenticationConfigurationManagerFac'' \<and>
   sanitize_task (Some (js ''  Fix: the   README!  '')) = js ''Fix the README'' \<and>
   commit_message (js ''2025-01-02T03:04:05.678Z'') (Some (js ''  Fix: the   README!  ''))
       (Some (js ''sess-123456''))
     = js ''RALPHIO: Fix the README [123456-030405]''"
proof -
  let ?a = "Some (js ''Implement the user login form with validation and error messages'')"
  let ?b = "Some (js ''Refactor the AuthenticationConfigurationManagerFactoryBuilder'')"
  let ?c = "Some (js ''  Fix: the   README!  '')"
  have ca: "clean_task ?a = js ''Implement the user login form with validation and error messages''"
    by (simp add: sanitize_simps)
  have ia: "lastIndexOf (take 50 (clean_task ?a)) 32 = 49"
    unfolding ca by (simp add: lastIndexOf_def)
  have "50 < length (clean_task ?a) \<and> 30 < lastIndexOf (take 50 (clean_task ?a)) 32"
    unfolding ia unfolding ca by simp
  with commit_message_sanitized [of ?a]
  have "sanitize_task ?a = take (nat (lastIndexOf (take 50 (clean_task ?a)) 32)) (clean_task ?a)"
    by blast
  then have a: "sanitize_task ?a = js ''Implement the user login form with validation and''"
    unfolding ia unfolding ca by simp
  have cb: "clean_task ?b = js ''Refactor the AuthenticationConfigurationManagerFactoryBuilder''"
    by (simp add: sanitize_simps)
  have "50 < length (clean_task ?b) \<and> lastIndexOf (take 50 (clean_task ?b)) 32 \<le> 30"
    unfolding cb by (simp add: lastIndexOf_def)
  with commit_message_sanitized [of ?b] have "sanitize_task ?b = take 50 (clean_task ?b)"
    by blast
  then have b: "sanitize_task ?b = js ''Refactor the AuthenticationConfigurationManagerFac''"
    unfolding cb by simp
  have cc: "clean_task ?c = js ''Fix the README''"
    by (simp add: sanitize_simps)
  then have "length (clean_task ?c) \<le> 50" by simp
  with commit_message_sanitized [of ?c]
  have "sanitize_task ?c = (if clean_task ?c = [] then js ''task'' else clean_task ?c)"
    by blast
  then have c: "sanitize_task ?c = js ''Fix the README''"
    unfolding cc by simp
  note iso = commit_message_sanitized [of ?c "Some (js ''sess-123456'')",
      THEN conjunct2, THEN conjunct2, THEN conjunct2, THEN conjunct2, THEN conjunct2,
      THEN conjunct2, rule_format,
      where d = "js ''2025-01-02T''" and ?h1.0 = 48 and ?h2.0 = 51 and ?m1.0 = 48 and ?m2.0 = 52
        and ?s1.0 = 48 and ?s2.0 = 53 and rest = "js ''.678Z''"]
  have "commit_message (js ''2025-01-02T'' @ [48, 51, 58, 48, 52, 58, 48, 53] @ js ''.678Z'')
      ?c (Some (js ''sess-123456'')) =
    js ''RALPHIO: '' @ sanitize_task ?c @ js '' [''
      @ (case Some (js ''sess-123456'') of
           None \<Rightarrow> js ''nosess''
         | Some x \<Rightarrow> if x = [] then js ''nosess'' else drop (length x - 6) x)
      @ js ''-'' @ [48, 51, 48, 52, 48, 53] @ js '']''"
    by (rule iso) simp
  then have m: "commit_message (js ''2025-01-02T03:04:05.678Z'') ?c (Some (js ''sess-123456''))
     = js ''RALPHIO: Fix the README [123456-030405]''"
    unfolding c by simp
  from a b c m show ?thesis by simp
qed

text \<open>
  C10. For every task description, \<^verbatim>\<open>null\<close> and the empty string included, the task
  segment of the commit message is not empty and is at most 50 characters long; for
  \<^verbatim>\<open>null\<close>, for the empty string and for a description made only of characters outside
  \<^verbatim>\<open>[a-zA-Z0-9 \-_]\<close>, it is the literal \<^verbatim>\<open>task\<close>.
\<close>

theorem task_segment_never_empty:
  "sanitize_task td \<noteq> [] \<and> length (sanitize_task td) \<le> 50 \<and>
   sanitize_task None = js ''task'' \<and>
   sanitize_task (Some []) = js ''task'' \<and>
   (\<forall>d. (\<forall>c\<in>set d. \<not> isSafeChar c) \<longrightarrow> sanitize_task (Some d) = js ''task'')"
proof (intro conjI allI impI)
  show "sanitize_task td \<noteq> []" by (rule sanitize_task_not_Nil)
  show "length (sanitize_task td) \<le> 50" by (rule length_sanitize_task)
  show "sanitize_task None = js ''task''" by (simp add: sanitize_simps)
  show "sanitize_task (Some []) = js ''task''" by (simp add: sanitize_simps)
next
  fix d
  assume u: "\<forall>c\<in>set d. \<not> isSafeChar c"
  show "sanitize_task (Some d) = js ''task''"
  proof (cases "d = []")
    case True
    then show ?thesis by (simp add: sanitize_simps)
  next
    case False
    with u have "filter isSafeChar (or_default (Some d) (js ''task'')) = []"
      by (simp add: or_default_def)
    then show ?thesis by (rule sanitize_task_fallback)
  qed
qed

theorem task_segment_never_empty_witness:
  "sanitize_task (Some (js ''!!!(???)/'')) = js ''task'' \<and>
   sanitize_task (Some (js ''   '')) \<noteq> []"
proof -
  have u: "\<forall>c\<in>set (js ''!!!(???)/''). \<not> isSafeChar c"
    by (simp add: isSafeChar_def)
  from task_segment_never_empty [of "Some (js ''   '')"]
  have a: "sanitize_task (Some (js ''   '')) \<noteq> []"
    and b: "\<forall>d. (\<forall>c\<in>set d. \<not> isSafeChar c) \<longrightarrow> sanitize_task (Some d) = js ''task''"
    by blast+
  from b u have "sanitize_task (Some (js ''!!!(???)/'')) = js ''task''"
    by blast
  with a show ?thesis by simp
qed

lemma commit_command_other:
  "commit_command m \<noteq> js ''git status --porcelain''"
  "commit_command m \<noteq> js ''git add -A''"
  "commit_command m \<noteq> js ''git diff --cached --stat''"
  by (simp_all add: commit_command_def)

lemma autoCommitChanges_clean:
  assumes "execSync (js ''git status --porcelain'') g = (Inr status, g1)" and "trim status = []"
  shows "autoCommitChanges execSync logToFile now td sid g =
    \<lparr>ok = True, commands = [js ''git status --porcelain''],
     repo = logToFile (js ''No changes to commit - agent likely already committed'')
              (js ''INFO'') g1\<rparr>"
  using assms by (simp add: autoCommitChanges_def autoCommitChanges_try_def)

lemma autoCommitChanges_nothing_staged:
  assumes "execSync (js ''git status --porcelain'') g = (Inr status, g1)"
    and "trim status \<noteq> []"
    and "execSync (js ''git add -A'')
           (logToFile (attempt_entry now td sid) (js ''DEBUG'') g1) = (Inr added, g3)"
    and "execSync (js ''git diff --cached --stat'') g3 = (Inr stagedChanges, g4)"
    and "trim stagedChanges = []"
  shows "autoCommitChanges execSync logToFile now td sid g =
    \<lparr>ok = True,
     commands = [js ''git status --porcelain'', js ''git add -A'', js ''git diff --cached --stat''],
     repo = logToFile (js ''No staged changes - agent likely committed or changes were reverted'')
              (js ''INFO'') g4\<rparr>"
  using assms by (simp add: autoCommitChanges_def autoCommitChanges_try_def Let_def)

lemma tree_exec_status_clean:
  "changed_paths t = [] \<Longrightarrow> staged_paths t = [] \<Longrightarrow>
   tree_exec (js ''git status --porcelain'') t = (Inr [], t)"
  by (simp add: tree_exec_def)

lemma tree_log_ignored: "logs_ignored t \<Longrightarrow> tree_log entry type t = t"
  by (simp add: tree_log_def)

lemma autoCommitChanges_ignored_logs:
  assumes "changed_paths t = []" and "staged_paths t = []" and "logs_ignored t"
  shows "autoCommitChanges tree_exec tree_log now td sid t =
    \<lparr>ok = True, commands = [js ''git status --porcelain''], repo = t\<rparr>"
proof -
  have "tree_exec (js ''git status --porcelain'') t = (Inr [], t)"
    using assms(1,2) by (rule tree_exec_status_clean)
  then have "autoCommitChanges tree_exec tree_log now td sid t =
    \<lparr>ok = True, commands = [js ''git status --porcelain''],
     repo = tree_log (js ''No changes to commit - agent likely already committed'')
              (js ''INFO'') t\<rparr>"
    using trim_Nil by (rule autoCommitChanges_clean)
  then show ?thesis by (simp add: tree_log_ignored [OF assms(3)])
qed

text \<open>
  C7, as stated, fails. The reconciler writes to its log before it returns, and the log
  file lies under \<^verbatim>\<open>./.agent/logs\<close> in the working tree. In a clean working tree whose
  repository does not ignore that directory, the first call runs the status query only
  and returns \<^verbatim>\<open>true\<close>; the second call, right after it, finds the log file in the
  status, stages it and commits it.
\<close>

theorem reconcile_clean_tree_counterexample:
  "(let now = js ''2025-01-02T03:04:05.678Z'';
        first = autoCommitChanges tree_exec tree_log now (Some (js ''Add login'')) None
                  (clean_tree False);
        second = autoCommitChanges tree_exec tree_log now (Some (js ''Add login'')) None
                   (repo first)
    in ok first \<and> commands first = [js ''git status --porcelain''] \<and>
       commit_log (repo first) = [] \<and>
       ok second \<and>
       commands second =
         [js ''git status --porcelain'', js ''git add -A'', js ''git diff --cached --stat'',
          js ''git commit -m '' @ [34] @ js ''RALPHIO: Add login [nosess-030405]'' @ [34]] \<and>
       commit_log (repo second) =
         [js ''git commit -m '' @ [34] @ js ''RALPHIO: Add login [nosess-030405]'' @ [34]])"
proof -
  let ?now = "js ''2025-01-02T03:04:05.678Z''"
  let ?td = "Some (js ''Add login'')"
  let ?log = "js ''.agent/logs/ralphio_2025-01-02.log''"
  have m: "commit_message ?now ?td None = js ''RALPHIO: Add login [nosess-030405]''"
    by (simp add: commit_message_def timestamp_of_def session_of_def sanitize_simps)
  have first: "autoCommitChanges tree_exec tree_log ?now ?td None (clean_tree False) =
      \<lparr>ok = True, commands = [js ''git status --porcelain''],
       repo = \<lparr>changed_paths = [?log], staged_paths = [], commit_log = [],
               logs_ignored = False\<rparr>\<rparr>"
    by (simp add: autoCommitChanges_def autoCommitChanges_try_def tree_exec_def tree_log_def
        clean_tree_def trim_def)
  have second: "autoCommitChanges tree_exec tree_log ?now ?td None
      \<lparr>changed_paths = [?log], staged_paths = [], commit_log = [], logs_ignored = False\<rparr> =
      \<lparr>ok = True,
       commands = [js ''git status --porcelain'', js ''git add -A'',
                   js ''git diff --cached --stat'',
                   js ''git commit -m '' @ [34] @ js ''RALPHIO: Add login [nosess-030405]'' @ [34]],
       repo = \<lparr>changed_paths = [?log], staged_paths = [],
               commit_log = [js ''git commit -m '' @ [34]
                               @ js ''RALPHIO: Add login [nosess-030405]'' @ [34]],
               logs_ignored = False\<rparr>\<rparr>"
    unfolding autoCommitChanges_def autoCommitChanges_try_def m Let_def
    by (simp add: tree_exec_def tree_log_def trim_def isWhiteSpace_def commit_command_def)
  show ?thesis
    unfolding Let_def first reconciled.select_convs second by simp
qed

text \<open>
  C7, amended. Whenever the status query reports no changes, the reconciler returns
  \<^verbatim>\<open>true\<close> having run the status query alone, with nothing staged and nothing committed,
  and leaves the working tree as the status query left it but for one entry appended to
  its log. Two calls in a row both return \<^verbatim>\<open>true\<close> and run no staging and no commit
  whenever the second status query, which runs after the log write of the first call,
  reports no changes again; this is so in a clean working tree whose repository ignores
  the log directory, which two calls in a row leave as it was. Likewise, when the
  status reports changes and staging gives no staged difference, the reconciler returns
  \<^verbatim>\<open>true\<close> having run the status query, the staging and the query of the staged
  difference, and no commit.
\<close>

theorem reconcile_clean_tree:
  fixes execSync :: "'g exec" and logToFile :: "'g logger"
  shows
  "(\<forall>status g1.
      execSync (js ''git status --porcelain'') g = (Inr status, g1) \<and> trim status = [] \<longrightarrow>
      autoCommitChanges execSync logToFile now td sid g =
        \<lparr>ok = True, commands = [js ''git status --porcelain''],
         repo = logToFile (js ''No changes to commit - agent likely already committed'')
                  (js ''INFO'') g1\<rparr>) \<and>
   (\<forall>status g1 status' g1'.
      execSync (js ''git status --porcelain'') g = (Inr status, g1) \<and> trim status = [] \<and>
      execSync (js ''git status --porcelain'')
        (logToFile (js ''No changes to commit - agent likely already committed'')
           (js ''INFO'') g1) = (Inr status', g1') \<and> trim status' = [] \<longrightarrow>
      (let first = autoCommitChanges execSync logToFile now td sid g;
           second = autoCommitChanges execSync logToFile now' td' sid' (repo first)
       in ok first \<and> commands first = [js ''git status --porcelain''] \<and>
          ok second \<and> commands second = [js ''git status --porcelain''])) \<and>
   (\<forall>t. changed_paths t = [] \<and> staged_paths t = [] \<and> logs_ignored t \<longrightarrow>
      (let first = autoCommitChanges tree_exec tree_log now td sid t;
           second = autoCommitChanges tree_exec tree_log now' td' sid' (repo first)
       in ok first \<and> commands first = [js ''git status --porcelain''] \<and>
          ok second \<and> commands second = [js ''git status --porcelain''] \<and>
          repo second = t)) \<and>
   (\<forall>status g1 added g3 stagedChanges g4.
      execSync (js ''git status --porcelain'') g = (Inr status, g1) \<and> trim status \<noteq> [] \<and>
      execSync (js ''git add -A'')
        (logToFile (attempt_entry now td sid) (js ''DEBUG'') g1) = (Inr added, g3) \<and>
      execSync (js ''git diff --cached --stat'') g3 = (Inr stagedChanges, g4) \<and>
      trim stagedChanges = [] \<longrightarrow>
      autoCommitChanges execSync logToFile now td sid g =
        \<lparr>ok = True,
         commands = [js ''git status --porcelain'', js ''git add -A'',
                     js ''git diff --cached --stat''],
         repo = logToFile
                  (js ''No staged changes - agent likely committed or changes were reverted'')
                  (js ''INFO'') g4\<rparr> \<and>
      (\<forall>m. commit_command m \<notin> set (commands (autoCommitChanges execSync logToFile now td sid g))))"
proof (intro conjI allI impI)
  fix status g1
  assume "execSync (js ''git status --porcelain'') g = (Inr status, g1) \<and> trim status = []"
  then show "autoCommitChanges execSync logToFile now td sid g =
        \<lparr>ok = True, commands = [js ''git status --porcelain''],
         repo = logToFile (js ''No changes to commit - agent likely already committed'')
                  (js ''INFO'') g1\<rparr>"
    by (simp add: autoCommitChanges_clean)
next
  fix status g1 status' g1'
  assume a: "execSync (js ''git status --porcelain'') g = (Inr status, g1) \<and> trim status = [] \<and>
      execSync (js ''git status --porcelain'')
        (logToFile (js ''No changes to commit - agent likely already committed'')
           (js ''INFO'') g1) = (Inr status', g1') \<and> trim status' = []"
  let ?g = "logToFile (js ''No changes to commit - agent likely already committed'')
              (js ''INFO'') g1"
  from a have first: "autoCommitChanges execSync logToFile now td sid g =
        \<lparr>ok = True, commands = [js ''git status --porcelain''], repo = ?g\<rparr>"
    by (simp add: autoCommitChanges_clean)
  from a have second: "autoCommitChanges execSync logToFile now' td' sid' ?g =
        \<lparr>ok = True, commands = [js ''git status --porcelain''],
         repo = logToFile (js ''No changes to commit - agent likely already committed'')
                  (js ''INFO'') g1'\<rparr>"
    by (simp add: autoCommitChanges_clean)
  show "let first = autoCommitChanges execSync logToFile now td sid g;
           second = autoCommitChanges execSync logToFile now' td' sid' (repo first)
       in ok first \<and> commands first = [js ''git status --porcelain''] \<and>
          ok second \<and> commands second = [js ''git status --porcelain'']"
    unfolding Let_def first reconciled.select_convs second by simp
next
  fix t :: work_tree
  assume a: "changed_paths t = [] \<and> staged_paths t = [] \<and> logs_ignored t"
  then have run: "autoCommitChanges tree_exec tree_log n d s t =
      \<lparr>ok = True, commands = [js ''git status --porcelain''], repo = t\<rparr>" for n d s
    by (simp add: autoCommitChanges_ignored_logs)
  show "let first = autoCommitChanges tree_exec tree_log now td sid t;
           second = autoCommitChanges tree_exec tree_log now' td' sid' (repo first)
       in ok first \<and> commands first = [js ''git status --porcelain''] \<and>
          ok second \<and> commands second = [js ''git status --porcelain''] \<and>
          repo second = t"
    unfolding Let_def run reconciled.select_convs by simp
next
  fix status g1 added g3 stagedChanges g4
  assume a: "execSync (js ''git status --porcelain'') g = (Inr status, g1) \<and> trim status \<noteq> [] \<and>
      execSync (js ''git add -A'')
        (logToFile (attempt_entry now td sid) (js ''DEBUG'') g1) = (Inr added, g3) \<and>
      execSync (js ''git diff --cached --stat'') g3 = (Inr stagedChanges, g4) \<and>
      trim stagedChanges = []"
  then have run: "autoCommitChanges execSync logToFile now td sid g =
        \<lparr>ok = True,
         commands = [js ''git status --porcelain'', js ''git add -A'',
                     js ''git diff --cached --stat''],
         repo = logToFile
                  (js ''No staged changes - agent likely committed or changes were reverted'')
                  (js ''INFO'') g4\<rparr>"
    using autoCommitChanges_nothing_staged
      [of execSync g status g1 logToFile now td sid added g3 stagedChanges g4]
    by simp
  then show "autoCommitChanges execSync logToFile now td sid g =
        \<lparr>ok = True,
         commands = [js ''git status --porcelain'', js ''git add -A'',
                     js ''git diff --cached --stat''],
         repo = logToFile
                  (js ''No staged changes - agent likely committed or changes were reverted'')
                  (js ''INFO'') g4\<rparr>" .
  fix m
  show "commit_command m \<notin> set (commands (autoCommitChanges execSync logToFile now td sid g))"
    unfolding run reconciled.select_convs using commit_command_other [of m] by simp
qed

theorem reconcile_clean_tree_witness:
  "autoCommitChanges quiet_exec silent_log (js ''2025-01-02T03:04:05.678Z'')
     (Some (js ''Add login'')) None 0 =
     \<lparr>ok = True, commands = [js ''git status --porcelain''], repo = 1\<rparr> \<and>
   (let first = autoCommitChanges quiet_exec silent_log (js ''2025-01-02T03:04:05.678Z'')
                  (Some (js ''Add login'')) None 0;
        second = autoCommitChanges quiet_exec silent_log (js ''2025-01-02T03:04:06.789Z'')
                   (Some (js ''Add logout'')) None (repo first)
    in ok first \<and> commands first = [js ''git status --porcelain''] \<and>
       ok second \<and> commands second = [js ''git status --porcelain'']) \<and>
   (let first = autoCommitChanges tree_exec tree_log (js ''2025-01-02T03:04:05.678Z'')
                  (Some (js ''Add login'')) None (clean_tree True);
        second = autoCommitChanges tree_exec tree_log (js ''2025-01-02T03:04:06.789Z'')
                   (Some (js ''Add logout'')) None (repo first)
    in ok first \<and> commands first = [js ''git status --porcelain''] \<and>
       ok second \<and> commands second = [js ''git status --porcelain''] \<and>
       repo second = clean_tree True) \<and>
   autoCommitChanges phantom_exec silent_log (js ''2025-01-02T03:04:05.678Z'')
     (Some (js ''Add login'')) None 0 =
     \<lparr>ok = True,
      commands = [js ''git status --porcelain'', js ''git add -A'',
                  js ''git diff --cached --stat''],
      repo = 3\<rparr>"
proof -
  let ?now = "js ''2025-01-02T03:04:05.678Z''"
  let ?now' = "js ''2025-01-02T03:04:06.789Z''"
  let ?td = "Some (js ''Add login'')"
  let ?td' = "Some (js ''Add logout'')"
  note quiet = reconcile_clean_tree [where execSync = quiet_exec and logToFile = silent_log
      and g = 0 and now = ?now and td = ?td and sid = None
      and now' = ?now' and td' = ?td' and sid' = None]
  note phantom = reconcile_clean_tree [where execSync = phantom_exec and logToFile = silent_log
      and g = 0 and now = ?now and td = ?td and sid = None]
  have one: "autoCommitChanges quiet_exec silent_log ?now ?td None 0 =
     \<lparr>ok = True, commands = [js ''git status --porcelain''],
      repo = silent_log (js ''No changes to commit - agent likely already committed'')
               (js ''INFO'') 1\<rparr>"
    by (rule quiet [THEN conjunct1, rule_format, of "[]" 1])
      (simp add: quiet_exec_def trim_def)
  have two: "let first = autoCommitChanges quiet_exec silent_log ?now ?td None 0;
        second = autoCommitChanges quiet_exec silent_log ?now' ?td' None (repo first)
    in ok first \<and> commands first = [js ''git status --porcelain''] \<and>
       ok second \<and> commands second = [js ''git status --porcelain'']"
    by (rule quiet [THEN conjunct2, THEN conjunct1, rule_format, of "[]" 1 "[]" 2])
      (simp add: quiet_exec_def silent_log_def trim_def)
  have three: "let first = autoCommitChanges tree_exec tree_log ?now ?td None (clean_tree True);
        second = autoCommitChanges tree_exec tree_log ?now' ?td' None (repo first)
    in ok first \<and> commands first = [js ''git status --porcelain''] \<and>
       ok second \<and> commands second = [js ''git status --porcelain''] \<and>
       repo second = clean_tree True"
    by (rule quiet [THEN conjunct2, THEN conjunct2, THEN conjunct1, rule_format,
          of "clean_tree True"])
      (simp add: clean_tree_def)
  have "autoCommitChanges phantom_exec silent_log ?now ?td None 0 =
     \<lparr>ok = True,
      commands = [js ''git status --porcelain'', js ''git add -A'',
                  js ''git diff --cached --stat''],
      repo = silent_log
               (js ''No staged changes - agent likely committed or changes were reverted'')
               (js ''INFO'') 3\<rparr> \<and>
     (\<forall>m. commit_command m
        \<notin> set (commands (autoCommitChanges phantom_exec silent_log ?now ?td None 0)))"
    by (rule phantom [THEN conjunct2, THEN conjunct2, THEN conjunct2, rule_format,
          of "js '' M vendor/lib'' @ [10]" 1 "[]" 2 "[]" 3])
      (simp add: phantom_exec_def silent_log_def trim_def isWhiteSpace_def)
  then have four: "autoCommitChanges phantom_exec silent_log ?now ?td None 0 =
     \<lparr>ok = True,
      commands = [js ''git status --porcelain'', js ''git add -A'',
                  js ''git diff --cached --stat''],
      repo = 3\<rparr>"
    by (simp add: silent_log_def)
  from one have one': "autoCommitChanges quiet_exec silent_log ?now ?td None 0 =
     \<lparr>ok = True, commands = [js ''git status --porcelain''], repo = 1\<rparr>"
    by (simp add: silent_log_def)
  from one' two three four show ?thesis by (intro conjI)
qed

section \<open>Theorems: agent invocation adapter\<close>

lemma on_message_no_Result:
  "\<not> is_Result m \<Longrightarrow>
   \<exists>q'. on_message w m q = Inr q' \<and> memory_appends q' = memory_appends q \<and>
        result q' = result q \<and> (\<not> is_SystemInit m \<longrightarrow> sessionId q' = sessionId q)"
  by (cases m) simp_all

lemma deadline_cases:
  obtains "d = None" | "d = Some 0" | k where "d = Some (Suc k)"
  by (metis not0_implies_Suc option.exhaust)

lemma await_query_Throws:
  "\<exists>err. fst (await_query w t d ms (Throws e) q) = Inl err"
proof (induction ms arbitrary: d q)
  case Nil
  show ?case by (cases d rule: deadline_cases) simp_all
next
  case (Cons m ms)
  show ?case
  proof (cases "on_message w m q")
    case (Inl err)
    then show ?thesis by (cases d rule: deadline_cases) simp_all
  next
    case (Inr q')
    with Cons.IH [of _ q'] show ?thesis by (cases d rule: deadline_cases) simp_all
  qed
qed

lemma await_query_no_Result_appends:
  "\<forall>m\<in>set ms. \<not> is_Result m \<Longrightarrow>
   memory_appends (snd (await_query w t d ms e q)) = memory_appends q"
proof (induction ms arbitrary: d q)
  case Nil
  show ?case by (cases d rule: deadline_cases; cases e) simp_all
next
  case (Cons m ms)
  from Cons.prems have "\<not> is_Result m" and rest: "\<forall>m\<in>set ms. \<not> is_Result m" by simp_all
  from on_message_no_Result [OF this(1), of w q] obtain q' where
    q': "on_message w m q = Inr q'" "memory_appends q' = memory_appends q"
    by blast
  have step: "memory_appends (snd (await_query w t d' ms e q')) = memory_appends q" for d'
    using Cons.IH [OF rest, of d' q'] q'(2) by simp
  from q'(1) step show ?case by (cases d rule: deadline_cases) simp_all
qed

lemma await_query_skip:
  "\<forall>m\<in>set xs. \<not> is_Result m \<Longrightarrow>
   \<exists>q'. await_query w t None (xs @ ys) e q = await_query w t None ys e q' \<and>
        memory_appends q' = memory_appends q \<and> result q' = result q \<and>
        ((\<forall>m\<in>set xs. \<not> is_SystemInit m) \<longrightarrow> sessionId q' = sessionId q)"
proof (induction xs arbitrary: q)
  case Nil
  show ?case by auto
next
  case (Cons m xs)
  from Cons.prems have "\<not> is_Result m" and rest: "\<forall>m\<in>set xs. \<not> is_Result m" by simp_all
  from on_message_no_Result [OF this(1), of w q] obtain q1 where
    q1: "on_message w m q = Inr q1" "memory_appends q1 = memory_appends q" "result q1 = result q"
      "\<not> is_SystemInit m \<longrightarrow> sessionId q1 = sessionId q"
    by blast
  from Cons.IH [OF rest, of q1] obtain q' where
    q': "await_query w t None (xs @ ys) e q1 = await_query w t None ys e q'"
      "memory_appends q' = memory_appends q1" "result q' = result q1"
      "(\<forall>m\<in>set xs. \<not> is_SystemInit m) \<longrightarrow> sessionId q' = sessionId q1"
    by blast
  have "await_query w t None ((m # xs) @ ys) e q = await_query w t None ys e q'"
    using q1(1) q'(1) by simp
  with q1 q' show ?case by auto
qed

lemma await_query_no_Result:
  assumes "\<forall>m\<in>set ms. \<not> is_Result m"
  shows "fst (await_query w t None ms Exhausted q) = Inr (result q)"
    and "fst (await_query w t None ms (Throws e) q) = Inl e"
proof -
  from await_query_skip [OF assms, of w t "[]" Exhausted q]
  show "fst (await_query w t None ms Exhausted q) = Inr (result q)" by auto
  from await_query_skip [OF assms, of w t "[]" "Throws e" q]
  show "fst (await_query w t None ms (Throws e) q) = Inl e" by auto
qed

lemma await_query_one_breadcrumb:
  assumes "\<forall>m\<in>set pre. \<not> is_Result m"
    and "\<forall>m\<in>set mid. \<not> is_Result m \<and> \<not> is_SystemInit m"
    and "\<forall>m\<in>set post. \<not> is_Result m"
    and "sid \<noteq> []"
  shows "memory_appends (snd (await_query True t None
      (pre @ [SystemInit (Some sid)] @ mid @ [Result r] @ post) e q))
    = memory_appends q @ [breadcrumb sid]"
proof -
  from await_query_skip [OF assms(1), of True t "[SystemInit (Some sid)] @ mid @ [Result r] @ post" e q]
  obtain q1 where q1: "await_query True t None (pre @ [SystemInit (Some sid)] @ mid @ [Result r] @ post) e q
      = await_query True t None ([SystemInit (Some sid)] @ mid @ [Result r] @ post) e q1"
    "memory_appends q1 = memory_appends q"
    by blast
  let ?q2 = "q1\<lparr>sessionId := Some sid\<rparr>"
  have s2: "await_query True t None ([SystemInit (Some sid)] @ mid @ [Result r] @ post) e q1
      = await_query True t None (mid @ [Result r] @ post) e ?q2"
    by simp
  from assms(2) have m1: "\<forall>m\<in>set mid. \<not> is_Result m" and m2: "\<forall>m\<in>set mid. \<not> is_SystemInit m"
    by simp_all
  from await_query_skip [OF m1, of True t "[Result r] @ post" e ?q2] m2
  obtain q3 where q3: "await_query True t None (mid @ [Result r] @ post) e ?q2
      = await_query True t None ([Result r] @ post) e q3"
    "memory_appends q3 = memory_appends ?q2" "sessionId q3 = sessionId ?q2"
    by blast
  let ?q4 = "q3\<lparr>result := r, memory_appends := memory_appends q3 @ [breadcrumb sid]\<rparr>"
  from q3(3) assms(4) have s4: "await_query True t None ([Result r] @ post) e q3
      = await_query True t None post e ?q4"
    by (simp add: truthy_def)
  have "memory_appends (snd (await_query True t None post e ?q4)) = memory_appends ?q4"
    by (rule await_query_no_Result_appends [OF assms(3)])
  with q1 s2 q3 s4 show ?thesis by simp
qed

lemma runTask_readable:
  assumes "files_readable (files s)"
  shows "returned (runTask s) =
      fst (await_query (memory_writable s) (timeout_text s) (deadline s) (agent_messages s)
             (agent_end s) initial_query_state)"
    and "appended (runTask s) =
      memory_appends (snd (await_query (memory_writable s) (timeout_text s) (deadline s)
             (agent_messages s) (agent_end s) initial_query_state))"
proof -
  from assms obtain a b c where f: "readFileSync (files s) (js ''.agent/prompt.md'') = Inr a"
    "readFileSync (files s) (js ''.agent/memory.md'') = Inr b"
    "readFileSync (files s) (js ''.agent/planning.md'') = Inr c"
    unfolding files_readable_def
    by (metis isl_def sum.exhaust_disc sum.collapse(2))
  obtain x q where aq: "await_query (memory_writable s) (timeout_text s) (deadline s)
      (agent_messages s) (agent_end s) initial_query_state = (x, q)"
    by (cases "await_query (memory_writable s) (timeout_text s) (deadline s)
      (agent_messages s) (agent_end s) initial_query_state")
  show "returned (runTask s) =
      fst (await_query (memory_writable s) (timeout_text s) (deadline s) (agent_messages s)
             (agent_end s) initial_query_state)"
    unfolding runTask_def f aq by (cases x) (simp_all add: Let_def)
  show "appended (runTask s) =
      memory_appends (snd (await_query (memory_writable s) (timeout_text s) (deadline s)
             (agent_messages s) (agent_end s) initial_query_state))"
    unfolding runTask_def f aq by (cases x) (simp_all add: Let_def)
qed

lemma runTask_unreadable:
  assumes "\<not> files_readable (files s)"
  shows "\<exists>err. returned (runTask s) = Inl err" and "appended (runTask s) = []"
proof -
  from assms have "isl (readFileSync (files s) (js ''.agent/prompt.md'')) \<or>
      isl (readFileSync (files s) (js ''.agent/memory.md'')) \<or>
      isl (readFileSync (files s) (js ''.agent/planning.md''))"
    by (auto simp: files_readable_def)
  then show "\<exists>err. returned (runTask s) = Inl err" and "appended (runTask s) = []"
    by (auto simp: runTask_def isl_def split: sum.split)
qed

lemma calm_readable: "files_readable (files (calm ms e))"
  by (simp add: calm_def files_readable_def)

text \<open>
  C5, as stated, fails: a stream that is exhausted after the session has started,
  without a \<^verbatim>\<open>result\<close> message, makes \<^verbatim>\<open>runTask\<close> return the empty string, and the commit
  reconciler is called as after any successful invocation.
\<close>

theorem stream_without_result_counterexample:
  "returned (runTask (calm [SystemInit (Some (js ''sess-123456'')), Assistant [Text (js ''working'')]]
      Exhausted)) = Inr (Some []) \<and>
   reconciliation (runTask (calm [SystemInit (Some (js ''sess-123456'')), Assistant [Text (js ''working'')]]
      Exhausted)) \<noteq> None"
  by (simp add: runTask_def calm_def initial_query_state_def Let_def)

text \<open>
  C5, amended. An invocation whose stream throws fails, whatever else happens: \<^verbatim>\<open>runTask\<close>
  throws. When the files can be read, no deadline passes and the stream has emitted no
  \<^verbatim>\<open>result\<close> message, the error thrown is the one of the stream. A stream that is
  exhausted without a \<^verbatim>\<open>result\<close> message is not an error: under the same conditions
  \<^verbatim>\<open>runTask\<close> returns the empty string.
\<close>

theorem stream_error_fails:
  "(agent_end s = Throws e \<longrightarrow> (\<exists>err. returned (runTask s) = Inl err)) \<and>
   (agent_end s = Throws e \<and> files_readable (files s) \<and> deadline s = None \<and>
      (\<forall>m\<in>set (agent_messages s). \<not> is_Result m) \<longrightarrow> returned (runTask s) = Inl e) \<and>
   (agent_end s = Exhausted \<and> files_readable (files s) \<and> deadline s = None \<and>
      (\<forall>m\<in>set (agent_messages s). \<not> is_Result m) \<longrightarrow> returned (runTask s) = Inr (Some []))"
proof (intro conjI impI)
  assume e: "agent_end s = Throws e"
  show "\<exists>err. returned (runTask s) = Inl err"
  proof (cases "files_readable (files s)")
    case True
    from runTask_readable(1) [OF True] e await_query_Throws show ?thesis by metis
  next
    case False
    then show ?thesis by (rule runTask_unreadable(1))
  qed
next
  assume a: "agent_end s = Throws e \<and> files_readable (files s) \<and> deadline s = None \<and>
      (\<forall>m\<in>set (agent_messages s). \<not> is_Result m)"
  then have "returned (runTask s) = fst (await_query (memory_writable s) (timeout_text s) None
      (agent_messages s) (Throws e) initial_query_state)"
    by (simp add: runTask_readable(1))
  with a show "returned (runTask s) = Inl e"
    by (simp add: await_query_no_Result(2))
next
  assume a: "agent_end s = Exhausted \<and> files_readable (files s) \<and> deadline s = None \<and>
      (\<forall>m\<in>set (agent_messages s). \<not> is_Result m)"
  then have "returned (runTask s) = fst (await_query (memory_writable s) (timeout_text s) None
      (agent_messages s) Exhausted initial_query_state)"
    by (simp add: runTask_readable(1))
  with a show "returned (runTask s) = Inr (Some [])"
    by (simp add: await_query_no_Result(1) initial_query_state_def)
qed

theorem stream_error_fails_witness:
  "returned (runTask (calm [SystemInit (Some (js ''sess-123456''))]
      (Throws (Error (js ''Claude Code process exited with code 1'')))))
     = Inl (Error (js ''Claude Code process exited with code 1'')) \<and>
   returned (runTask (calm [SystemInit (Some (js ''sess-123456''))] Exhausted)) = Inr (Some [])"
proof -
  let ?e = "Error (js ''Claude Code process exited with code 1'')"
  let ?ms = "[SystemInit (Some (js ''sess-123456''))]"
  have a: "agent_end (calm ?ms (Throws ?e)) = Throws ?e \<and> files_readable (files (calm ?ms (Throws ?e))) \<and>
      deadline (calm ?ms (Throws ?e)) = None \<and>
      (\<forall>m\<in>set (agent_messages (calm ?ms (Throws ?e))). \<not> is_Result m)"
    by (simp add: calm_readable) (simp add: calm_def)
  have b: "agent_end (calm ?ms Exhausted) = Exhausted \<and> files_readable (files (calm ?ms Exhausted)) \<and>
      deadline (calm ?ms Exhausted) = None \<and>
      (\<forall>m\<in>set (agent_messages (calm ?ms Exhausted)). \<not> is_Result m)"
    by (simp add: calm_readable) (simp add: calm_def)
  from stream_error_fails [of "calm ?ms (Throws ?e)" ?e] a
  have "returned (runTask (calm ?ms (Throws ?e))) = Inl ?e" by blast
  moreover from stream_error_fails [of "calm ?ms Exhausted"] b
  have "returned (runTask (calm ?ms Exhausted)) = Inr (Some [])" by blast
  ultimately show ?thesis by simp
qed

text \<open>
  C6, as stated, fails: the \<^verbatim>\<open>init\<close> message with its session id has been received,
  the stream ends without a \<^verbatim>\<open>result\<close> message, and nothing has been appended to the
  memory store.
\<close>

theorem session_breadcrumb_counterexample:
  "appended (runTask (calm [SystemInit (Some (js ''sess-123456'')), Assistant [Text (js ''working'')]]
      (Throws (Error (js ''Claude Code process exited with code 1''))))) = [] \<and>
   appended (runTask (calm [SystemInit (Some (js ''sess-123456'')), Assistant [Text (js ''working'')]]
      Exhausted)) = []"
  by (simp add: runTask_def calm_def initial_query_state_def Let_def)

text \<open>
  C6, amended. The session id is appended to the memory store when a \<^verbatim>\<open>result\<close> message
  is handled, not when the session starts. An invocation whose stream holds no
  \<^verbatim>\<open>result\<close> message appends nothing, whether a session has started or not. An invocation
  whose stream holds an \<^verbatim>\<open>init\<close> message with a non-empty session id and, after it,
  exactly one \<^verbatim>\<open>result\<close> message (with no other \<^verbatim>\<open>init\<close> message between the two) appends
  exactly one line, which carries that session id, when the files can be read, the
  memory store can be written and no deadline passes.
\<close>

theorem session_breadcrumb_on_result:
  "((\<forall>m\<in>set (agent_messages s). \<not> is_Result m) \<longrightarrow> appended (runTask s) = []) \<and>
   (files_readable (files s) \<and> memory_writable s \<and> deadline s = None \<and>
    agent_messages s = pre @ [SystemInit (Some sid)] @ mid @ [Result r] @ post \<and> sid \<noteq> [] \<and>
    (\<forall>m\<in>set pre. \<not> is_Result m) \<and>
    (\<forall>m\<in>set mid. \<not> is_Result m \<and> \<not> is_SystemInit m) \<and>
    (\<forall>m\<in>set post. \<not> is_Result m)
    \<longrightarrow> appended (runTask s) = [breadcrumb sid])"
proof (intro conjI impI)
  assume n: "\<forall>m\<in>set (agent_messages s). \<not> is_Result m"
  show "appended (runTask s) = []"
  proof (cases "files_readable (files s)")
    case True
    from runTask_readable(2) [OF True] await_query_no_Result_appends [OF n] show ?thesis
      by (simp add: initial_query_state_def)
  next
    case False
    then show ?thesis by (rule runTask_unreadable(2))
  qed
next
  assume a: "files_readable (files s) \<and> memory_writable s \<and> deadline s = None \<and>
    agent_messages s = pre @ [SystemInit (Some sid)] @ mid @ [Result r] @ post \<and> sid \<noteq> [] \<and>
    (\<forall>m\<in>set pre. \<not> is_Result m) \<and>
    (\<forall>m\<in>set mid. \<not> is_Result m \<and> \<not> is_SystemInit m) \<and>
    (\<forall>m\<in>set post. \<not> is_Result m)"
  then have "appended (runTask s) = memory_appends (snd (await_query True (timeout_text s) None
      (pre @ [SystemInit (Some sid)] @ mid @ [Result r] @ post) (agent_end s) initial_query_state))"
    by (simp add: runTask_readable(2))
  also have "\<dots> = memory_appends initial_query_state @ [breadcrumb sid]"
    using a by (intro await_query_one_breadcrumb) simp_all
  finally show "appended (runTask s) = [breadcrumb sid]"
    by (simp add: initial_query_state_def)
qed

theorem session_breadcrumb_on_result_witness:
  "appended (runTask (calm [SystemInit (Some (js ''sess-123456'')), Assistant [Text (js ''working'')],
      Result (Some (js ''All done''))] Exhausted)) = [breadcrumb (js ''sess-123456'')] \<and>
   appended (runTask (calm [SystemInit (Some (js ''sess-123456''))] Exhausted)) = []"
proof -
  let ?ms = "[SystemInit (Some (js ''sess-123456'')), Assistant [Text (js ''working'')],
      Result (Some (js ''All done''))]"
  let ?s = "calm ?ms Exhausted"
  have "files_readable (files ?s) \<and> memory_writable ?s \<and> deadline ?s = None \<and>
    agent_messages ?s = [] @ [SystemInit (Some (js ''sess-123456''))] @ [Assistant [Text (js ''working'')]]
      @ [Result (Some (js ''All done''))] @ [] \<and> js ''sess-123456'' \<noteq> [] \<and>
    (\<forall>m\<in>set []. \<not> is_Result m) \<and>
    (\<forall>m\<in>set [Assistant [Text (js ''working'')]]. \<not> is_Result m \<and> \<not> is_SystemInit m) \<and>
    (\<forall>m\<in>set []. \<not> is_Result m)"
    by (simp add: calm_readable) (simp add: calm_def)
  with session_breadcrumb_on_result [of ?s "[]" "js ''sess-123456''" "[Assistant [Text (js ''working'')]]"
      "Some (js ''All done'')" "[]"]
  have a: "appended (runTask ?s) = [breadcrumb (js ''sess-123456'')]" by blast
  let ?t = "calm [SystemInit (Some (js ''sess-123456''))] Exhausted"
  have "\<forall>m\<in>set (agent_messages ?t). \<not> is_Result m" by (simp add: calm_def)
  with session_breadcrumb_on_result [of ?t] have b: "appended (runTask ?t) = []" by blast
  from a b show ?thesis by simp
qed

section \<open>Theorems: timeout guard\<close>

text \<open>
  For a delay that the timer takes as it is, from 1 to 2147483647 milliseconds, the guard
  rejects with its own error at that delay when the operation never settles or settles
  later, and settles as the operation does when the operation settles by then.
\<close>

lemma withTimeout_timer_range:
  assumes "1 \<le> ms" and "ms \<le> 2147483647"
  shows "withTimeout None ms = Some (ms, Rejected (timeout_error (decimal ms)))"
    and "ms < t \<Longrightarrow>
         withTimeout (Some (t, x)) ms = Some (ms, Rejected (timeout_error (decimal ms)))"
    and "t \<le> ms \<Longrightarrow> withTimeout (Some (t, x)) ms = Some (t, x)"
  using assms by (simp_all add: withTimeout_def promise_race_def timer_delay_def)

text \<open>
  C4 fails in the code for a delay above 2147483647 milliseconds, which \<^verbatim>\<open>getTimeout\<close>
  (lines 97 to 108) lets through and which the timer takes as 1 millisecond: with
  \<^verbatim>\<open>LOOP_TIMEOUT_MS=3000000000\<close>, an operation that settles after 5 milliseconds is
  answered after 1 millisecond by the error \<^verbatim>\<open>Operation timed out after 3000000000ms\<close>,
  and so is one that never settles.
\<close>

theorem withTimeout_large_delay:
  "withTimeout (Some (5, Fulfilled (js ''done''))) 3000000000 =
     Some (1, Rejected (Error (js ''Operation timed out after 3000000000ms''))) \<and>
   withTimeout (None :: jsstring promise) 3000000000 =
     Some (1, Rejected (Error (js ''Operation timed out after 3000000000ms'')))"
  by (simp add: withTimeout_def promise_race_def timer_delay_def decimal.simps timeout_error_def)

end
